theory Spec2Isabelle
  imports Complex_Main
begin

section \<open>Data model\<close>

text \<open>
  A cell of the board holds the empty string, \<open>'X'\<close> or \<open>'O'\<close>. JavaScript yields
  \<open>undefined\<close> when an array is read outside its bounds; \<open>UNDEFINED\<close> stands for that
  value, which is different from the three strings.
\<close>

datatype cell = EMPTY | PLAYER_X | PLAYER_O | UNDEFINED

type_synonym board = "cell list"

text \<open>\<open>board[i]\<close>: the element, or \<open>undefined\<close> outside the array.\<close>

fun cellAt :: "board \<Rightarrow> nat \<Rightarrow> cell" where
  "cellAt [] i = UNDEFINED"
| "cellAt (c # cs) i = (case i of 0 \<Rightarrow> c | Suc j \<Rightarrow> cellAt cs j)"

text \<open>
  A JavaScript number as the search uses it: an integer score, or one of the two
  infinities that initialise the bounds.
\<close>

datatype jsnum = NegInf | Fin int | PosInf

instantiation jsnum :: linorder
begin

fun less_eq_jsnum :: "jsnum \<Rightarrow> jsnum \<Rightarrow> bool" where
  "less_eq_jsnum NegInf y = True"
| "less_eq_jsnum (Fin a) NegInf = False"
| "less_eq_jsnum (Fin a) (Fin b) = (a \<le> b)"
| "less_eq_jsnum (Fin a) PosInf = True"
| "less_eq_jsnum PosInf NegInf = False"
| "less_eq_jsnum PosInf (Fin b) = False"
| "less_eq_jsnum PosInf PosInf = True"

definition less_jsnum :: "jsnum \<Rightarrow> jsnum \<Rightarrow> bool" where
  "less_jsnum x y = (x \<le> y \<and> \<not> y \<le> x)"

instance
proof
  fix x y z :: jsnum
  show "(x < y) = (x \<le> y \<and> \<not> y \<le> x)"
    by (simp add: less_jsnum_def)
  show "x \<le> x"
    by (cases x) simp_all
  show "x \<le> y \<Longrightarrow> y \<le> z \<Longrightarrow> x \<le> z"
    by (cases x; cases y; cases z) simp_all
  show "x \<le> y \<Longrightarrow> y \<le> x \<Longrightarrow> x = y"
    by (cases x; cases y) simp_all
  show "x \<le> y \<or> y \<le> x"
    by (cases x; cases y) auto
qed

end

section \<open>The game module (src/js/game.js)\<close>

definition WINNING_COMBINATIONS :: "(nat \<times> nat \<times> nat) list" where
  "WINNING_COMBINATIONS =
     [(0, 1, 2), (3, 4, 5), (6, 7, 8),
      (0, 3, 6), (1, 4, 7), (2, 5, 8),
      (0, 4, 8), (2, 4, 6)]"

text \<open>The \<open>winner\<close> field: \<open>null\<close> is \<open>None\<close>; otherwise a mark or the string \<open>'draw'\<close>.\<close>

datatype outcome = Mark cell | Draw

record result =
  ended :: bool
  resWinner :: "outcome option"
  resWinningLine :: "(nat \<times> nat \<times> nat) option"

text \<open>The condition of the scan: \<open>board[a] !== EMPTY && board[a] === board[b] && board[a] === board[c]\<close>.\<close>

definition lineMatches :: "board \<Rightarrow> nat \<times> nat \<times> nat \<Rightarrow> bool" where
  "lineMatches brd combo =
     (case combo of (a, b, c) \<Rightarrow>
        cellAt brd a \<noteq> EMPTY \<and> cellAt brd a = cellAt brd b \<and> cellAt brd a = cellAt brd c)"

fun scanCombos :: "board \<Rightarrow> (nat \<times> nat \<times> nat) list \<Rightarrow> (nat \<times> nat \<times> nat) option" where
  "scanCombos brd [] = None"
| "scanCombos brd (combo # rest) =
     (if lineMatches brd combo then Some combo else scanCombos brd rest)"

definition checkGameEnd :: "board \<Rightarrow> result" where
  "checkGameEnd brd =
     (case scanCombos brd WINNING_COMBINATIONS of
        Some combo \<Rightarrow>
          \<lparr>ended = True, resWinner = Some (Mark (cellAt brd (fst combo))),
           resWinningLine = Some combo\<rparr>
      | None \<Rightarrow>
          if list_all (\<lambda>c. c \<noteq> EMPTY) brd
          then \<lparr>ended = True, resWinner = Some Draw, resWinningLine = None\<rparr>
          else \<lparr>ended = False, resWinner = None, resWinningLine = None\<rparr>)"

record state =
  board :: board
  currentPlayer :: cell
  gameOver :: bool
  winner :: "outcome option"
  winningLine :: "(nat \<times> nat \<times> nat) option"
  playerSymbol :: cell
  aiSymbol :: cell

definition createInitialState :: "cell \<Rightarrow> state" where
  "createInitialState p =
     \<lparr>board = replicate 9 EMPTY, currentPlayer = PLAYER_X, gameOver = False,
      winner = None, winningLine = None, playerSymbol = p,
      aiSymbol = (if p = PLAYER_X then PLAYER_O else PLAYER_X)\<rparr>"

text \<open>
  \<open>init\<close> receives any string; everything but \<open>'X'\<close> and \<open>'O'\<close> is replaced by \<open>'X'\<close>.
\<close>

definition init :: "string \<Rightarrow> state" where
  "init s =
     (let p = (if s \<noteq> ''X'' \<and> s \<noteq> ''O'' then PLAYER_X
               else if s = ''X'' then PLAYER_X else PLAYER_O)
      in (createInitialState p)\<lparr>currentPlayer := PLAYER_X\<rparr>)"

definition isValidMove :: "state \<Rightarrow> int \<Rightarrow> bool" where
  "isValidMove st index =
     (\<not> gameOver st \<and> index \<ge> 0 \<and> index < 9 \<and> cellAt (board st) (nat index) = EMPTY)"

text \<open>The two notifications, each delivered with a snapshot of the state.\<close>

datatype notification = StateChange state | GameEnd state

text \<open>
  \<open>makeMove\<close> returns its boolean; the model returns with it the state it leaves and the
  notifications it sent, in order.
\<close>

definition makeMove :: "state \<Rightarrow> int \<Rightarrow> bool \<times> state \<times> notification list" where
  "makeMove st index =
     (if \<not> isValidMove st index then (False, st, [])
      else
        let st1 = st\<lparr>board := (board st)[nat index := currentPlayer st]\<rparr>;
            res = checkGameEnd (board st1)
        in if ended res
           then
             let st2 = st1\<lparr>gameOver := True, winner := resWinner res,
                            winningLine := resWinningLine res\<rparr>
             in (True, st2, [StateChange st2, GameEnd st2])
           else
             let st2 = st1\<lparr>currentPlayer :=
                              (if currentPlayer st1 = PLAYER_X then PLAYER_O else PLAYER_X)\<rparr>
             in (True, st2, [StateChange st2]))"

definition isPlayerTurn :: "state \<Rightarrow> bool" where
  "isPlayerTurn st = (currentPlayer st = playerSymbol st \<and> \<not> gameOver st)"

definition isAITurn :: "state \<Rightarrow> bool" where
  "isAITurn st = (currentPlayer st = aiSymbol st \<and> \<not> gameOver st)"

text \<open>The three cells of a triple all hold the mark \<open>m\<close>, which is not the empty one.\<close>

definition filledBy :: "board \<Rightarrow> nat \<times> nat \<times> nat \<Rightarrow> cell \<Rightarrow> bool" where
  "filledBy brd t m =
     (case t of (a, b, c) \<Rightarrow> m \<noteq> EMPTY \<and> brd ! a = m \<and> brd ! b = m \<and> brd ! c = m)"

text \<open>A series of \<open>makeMove\<close> calls: the state at the end, and the marks written, in order.\<close>

fun run :: "state \<Rightarrow> int list \<Rightarrow> state" where
  "run st [] = st"
| "run st (i # rest) = run (fst (snd (makeMove st i))) rest"

fun placed :: "state \<Rightarrow> int list \<Rightarrow> cell list" where
  "placed st [] = []"
| "placed st (i # rest) =
     (if fst (makeMove st i)
      then currentPlayer st # placed (fst (snd (makeMove st i))) rest
      else placed (fst (snd (makeMove st i))) rest)"

definition other :: "cell \<Rightarrow> cell" where
  "other p = (if p = PLAYER_X then PLAYER_O else PLAYER_X)"

definition countX :: "state \<Rightarrow> nat" where
  "countX st = count_list (board st) PLAYER_X"

definition countO :: "state \<Rightarrow> nat" where
  "countO st = count_list (board st) PLAYER_O"

text \<open>The invariant of the state machine that relates the counts to the mark to move.\<close>

definition balanced :: "state \<Rightarrow> bool" where
  "balanced st =
     ((countX st = countO st \<or> countX st = countO st + 1) \<and>
      (\<not> gameOver st \<longrightarrow>
         (currentPlayer st = PLAYER_X \<and> countX st = countO st) \<or>
         (currentPlayer st = PLAYER_O \<and> countX st = countO st + 1)))"

section \<open>The AI module (js/ai.js, second half of src/unnamed/part_003)\<close>

definition SCORE_WIN :: int where "SCORE_WIN = 10"
definition SCORE_LOSE :: int where "SCORE_LOSE = - 10"
definition SCORE_DRAW :: int where "SCORE_DRAW = 0"

text \<open>The module's own copy of the table of lines.\<close>

definition AI_WINNING_COMBINATIONS :: "(nat \<times> nat \<times> nat) list" where
  "AI_WINNING_COMBINATIONS =
     [(0, 1, 2), (3, 4, 5), (6, 7, 8),
      (0, 3, 6), (1, 4, 7), (2, 5, 8),
      (0, 4, 8), (2, 4, 6)]"

text \<open>\<open>checkWinner\<close> returns \<open>board[a]\<close> of the first matching line, or \<open>null\<close>.\<close>

definition checkWinner :: "board \<Rightarrow> cell option" where
  "checkWinner brd =
     (case scanCombos brd AI_WINNING_COMBINATIONS of
        Some combo \<Rightarrow> Some (cellAt brd (fst combo))
      | None \<Rightarrow> None)"

definition isBoardFull :: "board \<Rightarrow> bool" where
  "isBoardFull brd = list_all (\<lambda>c. c \<noteq> EMPTY) brd"

definition getEmptyCells :: "board \<Rightarrow> nat list" where
  "getEmptyCells brd = filter (\<lambda>i. cellAt brd i = EMPTY) [0 ..< length brd]"

text \<open>
  \<open>minimax\<close> writes its trial move into the array it is given, calls itself on that same
  array and writes \<open>EMPTY\<close> back. The model passes the array through: every call returns
  the score together with the array as the call leaves it. The first argument bounds the
  depth of the recursion; \<open>None\<close> means that the bound was reached.
\<close>

fun maxLoop ::
  "(board \<Rightarrow> int \<Rightarrow> bool \<Rightarrow> jsnum \<Rightarrow> jsnum \<Rightarrow> (jsnum \<times> board) option) \<Rightarrow>
   nat list \<Rightarrow> board \<Rightarrow> int \<Rightarrow> jsnum \<Rightarrow> jsnum \<Rightarrow> jsnum \<Rightarrow> (jsnum \<times> board) option" where
  "maxLoop rec [] brd depth alpha beta bestScore = Some (bestScore, brd)"
| "maxLoop rec (index # rest) brd depth alpha beta bestScore =
     (case rec (brd[index := PLAYER_O]) (depth + 1) False alpha beta of
        None \<Rightarrow> None
      | Some (score, brd1) \<Rightarrow>
          let brd2 = brd1[index := EMPTY];
              bestScore' = max score bestScore;
              alpha' = max alpha score
          in if beta \<le> alpha' then Some (bestScore', brd2)
             else maxLoop rec rest brd2 depth alpha' beta bestScore')"

fun minLoop ::
  "(board \<Rightarrow> int \<Rightarrow> bool \<Rightarrow> jsnum \<Rightarrow> jsnum \<Rightarrow> (jsnum \<times> board) option) \<Rightarrow>
   nat list \<Rightarrow> board \<Rightarrow> int \<Rightarrow> jsnum \<Rightarrow> jsnum \<Rightarrow> jsnum \<Rightarrow> (jsnum \<times> board) option" where
  "minLoop rec [] brd depth alpha beta bestScore = Some (bestScore, brd)"
| "minLoop rec (index # rest) brd depth alpha beta bestScore =
     (case rec (brd[index := PLAYER_X]) (depth + 1) True alpha beta of
        None \<Rightarrow> None
      | Some (score, brd1) \<Rightarrow>
          let brd2 = brd1[index := EMPTY];
              bestScore' = min score bestScore;
              beta' = min beta score
          in if beta' \<le> alpha then Some (bestScore', brd2)
             else minLoop rec rest brd2 depth alpha beta' bestScore')"

primrec minimax ::
  "nat \<Rightarrow> board \<Rightarrow> int \<Rightarrow> bool \<Rightarrow> jsnum \<Rightarrow> jsnum \<Rightarrow> (jsnum \<times> board) option" where
  "minimax 0 brd depth isMaximizing alpha beta = None"
| "minimax (Suc fuel) brd depth isMaximizing alpha beta =
     (let w = checkWinner brd in
      if w = Some PLAYER_O then Some (Fin (SCORE_WIN - depth), brd)
      else if w = Some PLAYER_X then Some (Fin (SCORE_LOSE + depth), brd)
      else if isBoardFull brd then Some (Fin SCORE_DRAW, brd)
      else
        let emptyCells = getEmptyCells brd in
        if isMaximizing
        then maxLoop (minimax fuel) emptyCells brd depth alpha beta NegInf
        else minLoop (minimax fuel) emptyCells brd depth alpha beta PosInf)"

text \<open>
  \<open>Math.random()\<close> yields a number \<open>r\<close> with \<open>0 \<le> r < 1\<close>, here a rational;
  \<open>randomIndex r n\<close> is \<open>Math.floor(Math.random() * n)\<close>.
\<close>

definition randomIndex :: "rat \<Rightarrow> nat \<Rightarrow> nat" where
  "randomIndex r n = nat \<lfloor>r * of_nat n\<rfloor>"

text \<open>
  Arrays are objects: a store holds them, a reference is a position in the store, and
  \<open>[...board]\<close> allocates a new array at the end of the store.
\<close>

type_synonym store = "board list"

fun rootLoop ::
  "nat \<Rightarrow> nat list \<Rightarrow> board \<Rightarrow> jsnum \<Rightarrow> nat option \<Rightarrow> (nat option \<times> board) option" where
  "rootLoop fuel [] boardCopy bestScore bestMove = Some (bestMove, boardCopy)"
| "rootLoop fuel (index # rest) boardCopy bestScore bestMove =
     (case minimax fuel (boardCopy[index := PLAYER_O]) 0 False NegInf PosInf of
        None \<Rightarrow> None
      | Some (score, brd1) \<Rightarrow>
          let brd2 = brd1[index := EMPTY]
          in if score > bestScore then rootLoop fuel rest brd2 score (Some index)
             else rootLoop fuel rest brd2 bestScore bestMove)"

text \<open>
  \<open>findBestMove fuel r st ref\<close>: the caller's array is \<open>st ! ref\<close>; the result is the
  returned index (\<open>None\<close> for \<open>null\<close>) and the store afterwards.
\<close>

definition findBestMove ::
  "nat \<Rightarrow> rat \<Rightarrow> store \<Rightarrow> nat \<Rightarrow> (nat option \<times> store) option" where
  "findBestMove fuel r st ref =
     (let boardCopy = length st;
          st1 = st @ [st ! ref];
          emptyCells = getEmptyCells (st1 ! boardCopy)
      in if length emptyCells = 0 then Some (None, st1)
         else if length emptyCells = 9
         then Some (Some ([0, 2, 4, 6, 8] ! randomIndex r 5), st1)
         else if length emptyCells = 8 \<and> cellAt (st1 ! boardCopy) 4 \<noteq> EMPTY
         then Some (Some ([0, 2, 6, 8] ! randomIndex r 4), st1)
         else
           case rootLoop fuel emptyCells (st1 ! boardCopy) NegInf None of
             None \<Rightarrow> None
           | Some (bestMove, brd) \<Rightarrow> Some (bestMove, st1[boardCopy := brd]))"

definition findRandomMove :: "rat \<Rightarrow> store \<Rightarrow> nat \<Rightarrow> nat option \<times> store" where
  "findRandomMove r st ref =
     (let emptyCells = getEmptyCells (st ! ref)
      in if length emptyCells = 0 then (None, st)
         else (Some (emptyCells ! randomIndex r (length emptyCells)), st))"

text \<open>
  \<open>getMoveWithDifficultyAndDelay(board, delay, difficulty)\<close> resolves its promise with the
  move after the delay; the model returns the move. The function has three parameters.
\<close>

definition getMoveWithDifficultyAndDelay ::
  "nat \<Rightarrow> rat \<Rightarrow> store \<Rightarrow> nat \<Rightarrow> nat \<Rightarrow> string \<Rightarrow> (nat option \<times> store) option" where
  "getMoveWithDifficultyAndDelay fuel r st ref delay difficulty =
     (if difficulty = ''easy'' then Some (findRandomMove r st ref)
      else findBestMove fuel r st ref)"

section \<open>The driver (js/main.js, src/unnamed/part_002)\<close>

definition AI_DELAY :: nat where "AI_DELAY = 400"

text \<open>
  \<open>triggerAIMove\<close> takes a copy of the board (\<open>Game.getBoard()\<close>), asks the AI module for
  a move and plays it through \<open>Game.makeMove\<close> unless it is \<open>null\<close>. The call reads
  \<open>AI.getMoveWithDifficultyAndDelay(board, AI_DELAY, difficulty, aiSymbol)\<close>: it passes the
  AI's symbol as a fourth argument, but the function declares three parameters, so the
  argument is dropped.
\<close>

definition triggerAIMove :: "nat \<Rightarrow> rat \<Rightarrow> string \<Rightarrow> state \<Rightarrow> state option" where
  "triggerAIMove fuel r difficulty st =
     (let brd = board st;
          aiSym = aiSymbol st
      in case getMoveWithDifficultyAndDelay fuel r [brd] 0 AI_DELAY difficulty of
           None \<Rightarrow> None
         | Some (None, st') \<Rightarrow> Some st
         | Some (Some move, st') \<Rightarrow> Some (fst (snd (makeMove st (int move)))))"

text \<open>The board with the two marks exchanged.\<close>

definition swapMarks :: "board \<Rightarrow> board" where
  "swapMarks brd =
     map (\<lambda>c. if c = PLAYER_X then PLAYER_O else if c = PLAYER_O then PLAYER_X else c) brd"

section \<open>The search as a pure function\<close>

text \<open>
  The definitions of this section are not part of the program. They restate its search
  as functions on values, in a form that evaluates quickly; the lemmas
  \<open>minimax_pure\<close> and \<open>findBestMove_pure\<close> below prove that the program's functions compute
  exactly these values.
\<close>

fun line3 :: "cell \<Rightarrow> cell \<Rightarrow> cell \<Rightarrow> bool" where
  "line3 PLAYER_X PLAYER_X PLAYER_X = True"
| "line3 PLAYER_O PLAYER_O PLAYER_O = True"
| "line3 UNDEFINED UNDEFINED UNDEFINED = True"
| "line3 a b c = False"

fun winnerOf :: "board \<Rightarrow> cell option" where
  "winnerOf [a, b, c, d, e, f, g, h, i] =
     (if line3 a b c then Some a else if line3 d e f then Some d else if line3 g h i then Some g
      else if line3 a d g then Some a else if line3 b e h then Some b else if line3 c f i then Some c
      else if line3 a e i then Some a else if line3 c e g then Some c else None)"
| "winnerOf brd = checkWinner brd"

fun noEmpty :: "board \<Rightarrow> bool" where
  "noEmpty [] = True"
| "noEmpty (EMPTY # cs) = False"
| "noEmpty (c # cs) = noEmpty cs"

fun revApp :: "board \<Rightarrow> board \<Rightarrow> board" where
  "revApp [] ys = ys"
| "revApp (x # xs) ys = revApp xs (x # ys)"

lemma revApp_eq: "revApp xs ys = rev xs @ ys"
  by (induction xs arbitrary: ys) auto

text \<open>
  The search without the store: a call returns the score only. The loops walk over the
  board itself, \<open>pre\<close> holding in reverse the cells already passed and \<open>post\<close> the cells
  still to come, so that the board under trial is \<open>rev pre @ mark # post\<close>.
\<close>

function abNode :: "board \<Rightarrow> int \<Rightarrow> bool \<Rightarrow> jsnum \<Rightarrow> jsnum \<Rightarrow> jsnum"
  and abCase :: "cell option \<Rightarrow> board \<Rightarrow> int \<Rightarrow> bool \<Rightarrow> jsnum \<Rightarrow> jsnum \<Rightarrow> jsnum"
  and abMax :: "board \<Rightarrow> board \<Rightarrow> int \<Rightarrow> jsnum \<Rightarrow> jsnum \<Rightarrow> jsnum \<Rightarrow> jsnum"
  and abMaxK :: "board \<Rightarrow> board \<Rightarrow> int \<Rightarrow> jsnum \<Rightarrow> jsnum \<Rightarrow> jsnum \<Rightarrow> jsnum \<Rightarrow> jsnum"
  and abMin :: "board \<Rightarrow> board \<Rightarrow> int \<Rightarrow> jsnum \<Rightarrow> jsnum \<Rightarrow> jsnum \<Rightarrow> jsnum"
  and abMinK :: "board \<Rightarrow> board \<Rightarrow> int \<Rightarrow> jsnum \<Rightarrow> jsnum \<Rightarrow> jsnum \<Rightarrow> jsnum \<Rightarrow> jsnum"
where
  "abNode brd depth isMax alpha beta = abCase (winnerOf brd) brd depth isMax alpha beta"
| "abCase (Some PLAYER_O) brd depth isMax alpha beta = Fin (SCORE_WIN - depth)"
| "abCase (Some PLAYER_X) brd depth isMax alpha beta = Fin (SCORE_LOSE + depth)"
| "abCase (Some EMPTY) brd depth isMax alpha beta =
     (if noEmpty brd then Fin SCORE_DRAW
      else if isMax then abMax [] brd depth alpha beta NegInf
      else abMin [] brd depth alpha beta PosInf)"
| "abCase (Some UNDEFINED) brd depth isMax alpha beta =
     (if noEmpty brd then Fin SCORE_DRAW
      else if isMax then abMax [] brd depth alpha beta NegInf
      else abMin [] brd depth alpha beta PosInf)"
| "abCase None brd depth isMax alpha beta =
     (if noEmpty brd then Fin SCORE_DRAW
      else if isMax then abMax [] brd depth alpha beta NegInf
      else abMin [] brd depth alpha beta PosInf)"
| "abMax pre [] depth alpha beta best = best"
| "abMax pre (EMPTY # post) depth alpha beta best =
     abMaxK pre post depth alpha beta best
       (abNode (revApp pre (PLAYER_O # post)) (depth + 1) False alpha beta)"
| "abMax pre (PLAYER_X # post) depth alpha beta best =
     abMax (PLAYER_X # pre) post depth alpha beta best"
| "abMax pre (PLAYER_O # post) depth alpha beta best =
     abMax (PLAYER_O # pre) post depth alpha beta best"
| "abMax pre (UNDEFINED # post) depth alpha beta best =
     abMax (UNDEFINED # pre) post depth alpha beta best"
| "abMaxK pre post depth alpha beta best score =
     (if beta \<le> max alpha score then max score best
      else abMax (EMPTY # pre) post depth (max alpha score) beta (max score best))"
| "abMin pre [] depth alpha beta best = best"
| "abMin pre (EMPTY # post) depth alpha beta best =
     abMinK pre post depth alpha beta best
       (abNode (revApp pre (PLAYER_X # post)) (depth + 1) True alpha beta)"
| "abMin pre (PLAYER_X # post) depth alpha beta best =
     abMin (PLAYER_X # pre) post depth alpha beta best"
| "abMin pre (PLAYER_O # post) depth alpha beta best =
     abMin (PLAYER_O # pre) post depth alpha beta best"
| "abMin pre (UNDEFINED # post) depth alpha beta best =
     abMin (UNDEFINED # pre) post depth alpha beta best"
| "abMinK pre post depth alpha beta best score =
     (if min beta score \<le> alpha then min score best
      else abMin (EMPTY # pre) post depth alpha (min beta score) (min score best))"
  by pat_completeness auto
termination
  by (relation "inv_image (less_than <*lex*> less_than)
     (\<lambda>x. case x of
        Inl (Inl (brd, _)) \<Rightarrow> (count_list brd EMPTY, 2 * length brd + 4)
      | Inl (Inr (Inl (w, brd, _))) \<Rightarrow> (count_list brd EMPTY, 2 * length brd + 3)
      | Inl (Inr (Inr (pre, post, _))) \<Rightarrow>
          (count_list pre EMPTY + count_list post EMPTY, 2 * length post + 1)
      | Inr (Inl (pre, post, _)) \<Rightarrow>
          (count_list pre EMPTY + count_list post EMPTY + 1, 2 * length post + 2)
      | Inr (Inr (Inl (pre, post, _))) \<Rightarrow>
          (count_list pre EMPTY + count_list post EMPTY, 2 * length post + 1)
      | Inr (Inr (Inr (pre, post, _))) \<Rightarrow>
          (count_list pre EMPTY + count_list post EMPTY + 1, 2 * length post + 2))")
    (auto simp: revApp_eq)


text \<open>The indices of the empty cells of \<open>cs\<close>, counted from \<open>k\<close>.\<close>

fun emptiesFrom :: "nat \<Rightarrow> board \<Rightarrow> nat list" where
  "emptiesFrom k [] = []"
| "emptiesFrom k (c # cs) =
     (if c = EMPTY then k # emptiesFrom (Suc k) cs else emptiesFrom (Suc k) cs)"

text \<open>The loop of \<open>findBestMove\<close> in the same style; \<open>idx\<close> is the index of the head of \<open>post\<close>.\<close>

fun rootScan :: "board \<Rightarrow> board \<Rightarrow> nat \<Rightarrow> jsnum \<Rightarrow> nat option \<Rightarrow> nat option"
  and rootPick :: "board \<Rightarrow> board \<Rightarrow> nat \<Rightarrow> jsnum \<Rightarrow> nat option \<Rightarrow> jsnum \<Rightarrow> nat option" where
  "rootScan pre [] idx bestScore bestMove = bestMove"
| "rootScan pre (EMPTY # post) idx bestScore bestMove =
     rootPick pre post idx bestScore bestMove
       (abNode (revApp pre (PLAYER_O # post)) 0 False NegInf PosInf)"
| "rootScan pre (PLAYER_X # post) idx bestScore bestMove =
     rootScan (PLAYER_X # pre) post (Suc idx) bestScore bestMove"
| "rootScan pre (PLAYER_O # post) idx bestScore bestMove =
     rootScan (PLAYER_O # pre) post (Suc idx) bestScore bestMove"
| "rootScan pre (UNDEFINED # post) idx bestScore bestMove =
     rootScan (UNDEFINED # pre) post (Suc idx) bestScore bestMove"
| "rootPick pre post idx bestScore bestMove score =
     (if score > bestScore then rootScan (EMPTY # pre) post (Suc idx) score (Some idx)
      else rootScan (EMPTY # pre) post (Suc idx) bestScore bestMove)"

definition bestMoveOf :: "rat \<Rightarrow> board \<Rightarrow> nat option" where
  "bestMoveOf r brd =
     (if count_list brd EMPTY = 0 then None
      else if count_list brd EMPTY = 9 then Some ([0, 2, 4, 6, 8] ! randomIndex r 5)
      else if count_list brd EMPTY = 8 \<and> cellAt brd 4 \<noteq> EMPTY
      then Some ([0, 2, 6, 8] ! randomIndex r 4)
      else rootScan [] brd 0 NegInf None)"

section \<open>The state machine\<close>

lemma cellAt_nth: "cellAt brd i = (if i < length brd then brd ! i else UNDEFINED)"
  by (induction brd i rule: cellAt.induct) (auto split: nat.splits)

lemma cellAt_EMPTY_bound: "cellAt brd i = EMPTY \<Longrightarrow> i < length brd"
  by (simp add: cellAt_nth split: if_splits)

lemma cellAt_update: "i < length brd \<Longrightarrow> cellAt (brd[i := v]) i = v"
  by (simp add: cellAt_nth)

text \<open>
  C4. \<open>makeMove\<close> returns true exactly when \<open>isValidMove\<close> held before the call, that is
  when the game is not over, the index is between 0 and 8 and the cell is empty. After a
  successful call the cell holds the mark that was to move. A refused call returns false,
  leaves the whole state as it was and sends no notification.
\<close>

theorem makeMove_legality:
  "fst (makeMove st i) = isValidMove st i \<and>
   (isValidMove st i \<longleftrightarrow>
      \<not> gameOver st \<and> 0 \<le> i \<and> i \<le> 8 \<and> cellAt (board st) (nat i) = EMPTY) \<and>
   (isValidMove st i \<longrightarrow>
      cellAt (board (fst (snd (makeMove st i)))) (nat i) = currentPlayer st) \<and>
   (\<not> isValidMove st i \<longrightarrow> makeMove st i = (False, st, []))"
proof -
  have ok: "fst (makeMove st i) = isValidMove st i"
    by (simp add: makeMove_def Let_def)
  have legal: "isValidMove st i \<longleftrightarrow>
      \<not> gameOver st \<and> 0 \<le> i \<and> i \<le> 8 \<and> cellAt (board st) (nat i) = EMPTY"
    by (auto simp: isValidMove_def)
  have placed: "cellAt (board (fst (snd (makeMove st i)))) (nat i) = currentPlayer st"
    if v: "isValidMove st i"
  proof -
    from v have "nat i < length (board st)"
      by (auto simp: isValidMove_def dest: cellAt_EMPTY_bound)
    with v show ?thesis
      by (simp add: makeMove_def Let_def cellAt_update)
  qed
  have noop: "makeMove st i = (False, st, [])" if "\<not> isValidMove st i"
    using that by (simp add: makeMove_def)
  from ok legal placed noop show ?thesis by blast
qed

theorem makeMove_legality_witness:
  "isValidMove (init ''X'') 4 \<and>
   cellAt (board (fst (snd (makeMove (init ''X'') 4)))) (nat 4) = PLAYER_X \<and>
   \<not> isValidMove (init ''X'') 9 \<and>
   makeMove (init ''X'') 9 = (False, init ''X'', [])"
proof -
  have v: "isValidMove (init ''X'') 4"
    by (simp add: isValidMove_def init_def createInitialState_def cellAt_nth)
  have n: "\<not> isValidMove (init ''X'') 9"
    by (simp add: isValidMove_def)
  have p: "currentPlayer (init ''X'') = PLAYER_X"
    by (simp add: init_def createInitialState_def)
  from v n p makeMove_legality [of "init ''X''" 4] makeMove_legality [of "init ''X''" 9]
  show ?thesis by simp
qed


lemma scanCombos_find: "scanCombos brd cs = List.find (lineMatches brd) cs"
  by (induction cs) auto

lemma scanCombos_Some_iff:
  "scanCombos brd cs = Some t \<longleftrightarrow>
     (\<exists>k<length cs. cs ! k = t \<and> lineMatches brd t \<and> (\<forall>j<k. \<not> lineMatches brd (cs ! j)))"
  unfolding scanCombos_find find_Some_iff by auto

lemma scanCombos_None_iff:
  "scanCombos brd cs = None \<longleftrightarrow> (\<forall>t\<in>set cs. \<not> lineMatches brd t)"
  unfolding scanCombos_find find_None_iff by auto

lemma combos_in_range:
  "t \<in> set WINNING_COMBINATIONS \<Longrightarrow> (case t of (a, b, c) \<Rightarrow> a < 9 \<and> b < 9 \<and> c < 9)"
  by (auto simp: WINNING_COMBINATIONS_def)

lemma lineMatches_filledBy:
  assumes "length brd = 9" "t \<in> set WINNING_COMBINATIONS"
  shows "lineMatches brd t \<longleftrightarrow> (\<exists>m. filledBy brd t m)"
    and "filledBy brd t m \<longleftrightarrow> lineMatches brd t \<and> cellAt brd (fst t) = m"
  using combos_in_range [OF assms(2)] assms(1)
  by (auto simp: lineMatches_def filledBy_def cellAt_nth split: prod.splits)

text \<open>
  C5. On a board of nine cells \<open>checkGameEnd\<close> reports the mark \<open>m\<close> with the triple \<open>t\<close>
  exactly when \<open>t\<close> is the first triple of the scan order (rows, columns, diagonals) whose
  three cells all hold the non-empty \<open>m\<close>; when no triple is filled it reports a draw on a
  full board and a game that continues otherwise.
\<close>

theorem checkGameEnd_correct:
  assumes len: "length brd = 9"
  shows "WINNING_COMBINATIONS =
           [(0, 1, 2), (3, 4, 5), (6, 7, 8), (0, 3, 6), (1, 4, 7), (2, 5, 8), (0, 4, 8), (2, 4, 6)] \<and>
         (checkGameEnd brd = \<lparr>ended = True, resWinner = Some (Mark m), resWinningLine = Some t\<rparr> \<longleftrightarrow>
           (\<exists>k<8. WINNING_COMBINATIONS ! k = t \<and> filledBy brd t m \<and>
                  (\<forall>j<k. \<forall>m'. \<not> filledBy brd (WINNING_COMBINATIONS ! j) m'))) \<and>
         ((\<forall>c\<in>set WINNING_COMBINATIONS. \<forall>m'. \<not> filledBy brd c m') \<and> EMPTY \<notin> set brd \<longrightarrow>
           checkGameEnd brd = \<lparr>ended = True, resWinner = Some Draw, resWinningLine = None\<rparr>) \<and>
         ((\<forall>c\<in>set WINNING_COMBINATIONS. \<forall>m'. \<not> filledBy brd c m') \<and> EMPTY \<in> set brd \<longrightarrow>
           checkGameEnd brd = \<lparr>ended = False, resWinner = None, resWinningLine = None\<rparr>)"
proof -
  have l8: "length WINNING_COMBINATIONS = 8"
    by (simp add: WINNING_COMBINATIONS_def)
  have mem: "WINNING_COMBINATIONS ! k \<in> set WINNING_COMBINATIONS" if "k < 8" for k
    using that l8 by simp
  have lm: "lineMatches brd (WINNING_COMBINATIONS ! k) \<longleftrightarrow>
              (\<exists>m'. filledBy brd (WINNING_COMBINATIONS ! k) m')" if "k < 8" for k
    using lineMatches_filledBy(1) [OF len mem [OF that]] .
  have order: "WINNING_COMBINATIONS =
           [(0, 1, 2), (3, 4, 5), (6, 7, 8), (0, 3, 6), (1, 4, 7), (2, 5, 8), (0, 4, 8), (2, 4, 6)]"
    by (simp add: WINNING_COMBINATIONS_def)
  have none: "scanCombos brd WINNING_COMBINATIONS = None"
    if "\<forall>c\<in>set WINNING_COMBINATIONS. \<forall>m'. \<not> filledBy brd c m'"
    using that lineMatches_filledBy(1) [OF len] by (simp add: scanCombos_None_iff)
  have draw: "(\<forall>c\<in>set WINNING_COMBINATIONS. \<forall>m'. \<not> filledBy brd c m') \<and> EMPTY \<notin> set brd \<longrightarrow>
           checkGameEnd brd = \<lparr>ended = True, resWinner = Some Draw, resWinningLine = None\<rparr>"
    using none by (auto simp: checkGameEnd_def list_all_iff)
  have cont: "(\<forall>c\<in>set WINNING_COMBINATIONS. \<forall>m'. \<not> filledBy brd c m') \<and> EMPTY \<in> set brd \<longrightarrow>
           checkGameEnd brd = \<lparr>ended = False, resWinner = None, resWinningLine = None\<rparr>"
    using none by (auto simp: checkGameEnd_def list_all_iff)
  have win: "checkGameEnd brd = \<lparr>ended = True, resWinner = Some (Mark m), resWinningLine = Some t\<rparr> \<longleftrightarrow>
           (\<exists>k<8. WINNING_COMBINATIONS ! k = t \<and> filledBy brd t m \<and>
                  (\<forall>j<k. \<forall>m'. \<not> filledBy brd (WINNING_COMBINATIONS ! j) m'))"
    (is "?L \<longleftrightarrow> ?R")
  proof
    assume ?L
    then have sc: "scanCombos brd WINNING_COMBINATIONS = Some t" and m: "cellAt brd (fst t) = m"
      by (auto simp: checkGameEnd_def split: option.splits if_splits)
    from sc obtain k where k: "k < 8" "WINNING_COMBINATIONS ! k = t" "lineMatches brd t"
      "\<forall>j<k. \<not> lineMatches brd (WINNING_COMBINATIONS ! j)"
      unfolding scanCombos_Some_iff l8 by blast
    from k(1,2) mem have tin: "t \<in> set WINNING_COMBINATIONS" by blast
    from lineMatches_filledBy(2) [OF len tin, of m] k(3) m have "filledBy brd t m" by simp
    moreover have "\<forall>j<k. \<forall>m'. \<not> filledBy brd (WINNING_COMBINATIONS ! j) m'"
      using k(1,4) lm by (meson less_trans)
    ultimately show ?R using k(1,2) by blast
  next
    assume ?R
    then obtain k where k: "k < 8" "WINNING_COMBINATIONS ! k = t" "filledBy brd t m"
      "\<forall>j<k. \<forall>m'. \<not> filledBy brd (WINNING_COMBINATIONS ! j) m'" by blast
    from k(1,2) mem have tin: "t \<in> set WINNING_COMBINATIONS" by blast
    from lineMatches_filledBy(2) [OF len tin, of m] k(3)
    have a: "lineMatches brd t" and b: "cellAt brd (fst t) = m" by simp_all
    have "\<forall>j<k. \<not> lineMatches brd (WINNING_COMBINATIONS ! j)"
      using k(1,4) lm by (meson less_trans)
    with a k(1,2) have "scanCombos brd WINNING_COMBINATIONS = Some t"
      unfolding scanCombos_Some_iff l8 by blast
    with b show ?L by (simp add: checkGameEnd_def)
  qed
  from order win draw cont show ?thesis by blast
qed

text \<open>
  Three boards: both the top and the middle row are complete (the top row is reported),
  a full board without a line, and the empty board.
\<close>

theorem checkGameEnd_correct_witness:
  "checkGameEnd [PLAYER_X, PLAYER_X, PLAYER_X, PLAYER_O, PLAYER_O, PLAYER_O, EMPTY, EMPTY, EMPTY]
     = \<lparr>ended = True, resWinner = Some (Mark PLAYER_X), resWinningLine = Some (0, 1, 2)\<rparr> \<and>
   checkGameEnd [PLAYER_X, PLAYER_O, PLAYER_X, PLAYER_X, PLAYER_O, PLAYER_O, PLAYER_O, PLAYER_X, PLAYER_X]
     = \<lparr>ended = True, resWinner = Some Draw, resWinningLine = None\<rparr> \<and>
   checkGameEnd (replicate 9 EMPTY) = \<lparr>ended = False, resWinner = None, resWinningLine = None\<rparr>"
proof -
  let ?w = "[PLAYER_X, PLAYER_X, PLAYER_X, PLAYER_O, PLAYER_O, PLAYER_O, EMPTY, EMPTY, EMPTY]"
  let ?d = "[PLAYER_X, PLAYER_O, PLAYER_X, PLAYER_X, PLAYER_O, PLAYER_O, PLAYER_O, PLAYER_X, PLAYER_X]"
  have w: "\<exists>k<8. WINNING_COMBINATIONS ! k = (0, 1, 2) \<and> filledBy ?w (0, 1, 2) PLAYER_X \<and>
      (\<forall>j<k. \<forall>m'. \<not> filledBy ?w (WINNING_COMBINATIONS ! j) m')"
    by (rule exI [of _ 0]) (simp add: WINNING_COMBINATIONS_def filledBy_def)
  have d: "(\<forall>c\<in>set WINNING_COMBINATIONS. \<forall>m'. \<not> filledBy ?d c m') \<and> EMPTY \<notin> set ?d"
    by (auto simp: WINNING_COMBINATIONS_def filledBy_def)
  have e: "(\<forall>c\<in>set WINNING_COMBINATIONS. \<forall>m'. \<not> filledBy (replicate 9 EMPTY) c m') \<and>
      EMPTY \<in> set (replicate 9 EMPTY)"
    by (auto simp: WINNING_COMBINATIONS_def filledBy_def)
  have l: "length ?w = 9" "length ?d = 9" "length (replicate 9 EMPTY :: board) = 9"
    by simp_all
  note 1 = checkGameEnd_correct [OF l(1), THEN conjunct2, THEN conjunct1, THEN iffD2, OF w]
  note 2 = checkGameEnd_correct [OF l(2), THEN conjunct2, THEN conjunct2, THEN conjunct1, THEN mp, OF d]
  note 3 = checkGameEnd_correct [OF l(3), THEN conjunct2, THEN conjunct2, THEN conjunct2, THEN mp, OF e]
  show ?thesis by (rule conjI [OF 1 conjI [OF 2 3]])
qed


lemma count_list_update:
  "i < length xs \<Longrightarrow> xs ! i = EMPTY \<Longrightarrow> v \<noteq> EMPTY \<Longrightarrow> c \<noteq> EMPTY \<Longrightarrow>
     count_list (xs[i := v]) c = (if c = v then count_list xs c + 1 else count_list xs c)"
proof (induction xs arbitrary: i)
  case Nil
  then show ?case by simp
next
  case (Cons x xs)
  then show ?case by (cases i) auto
qed

lemma balanced_init: "balanced (init s)"
  by (simp add: balanced_def init_def createInitialState_def countX_def countO_def)

lemma balanced_makeMove:
  assumes "balanced st"
  shows "balanced (fst (snd (makeMove st i)))"
proof (cases "isValidMove st i")
  case False
  with assms show ?thesis by (simp add: makeMove_def)
next
  case True
  then have b: "nat i < length (board st)" and e: "board st ! nat i = EMPTY"
    and g: "\<not> gameOver st"
    by (auto simp: isValidMove_def cellAt_nth split: if_splits)
  from assms g have "(currentPlayer st = PLAYER_X \<and> countX st = countO st) \<or>
         (currentPlayer st = PLAYER_O \<and> countX st = countO st + 1)"
    by (simp add: balanced_def)
  then show ?thesis
    using True b e
    by (auto simp: makeMove_def Let_def balanced_def countX_def countO_def count_list_update)
qed

lemma balanced_run: "balanced st \<Longrightarrow> balanced (run st is)"
  by (induction "is" arbitrary: st) (auto simp: balanced_makeMove)

lemma placed_gameOver: "gameOver st \<Longrightarrow> placed st is = []"
proof (induction "is" arbitrary: st)
  case Nil
  then show ?case by simp
next
  case (Cons i rest)
  then have "makeMove st i = (False, st, [])"
    by (simp add: makeMove_def isValidMove_def)
  with Cons show ?case by simp
qed

lemma placed_funpow:
  "k < length (placed st is) \<Longrightarrow> placed st is ! k = (other ^^ k) (currentPlayer st)"
proof (induction "is" arbitrary: st k)
  case Nil
  then show ?case by simp
next
  case (Cons i rest)
  show ?case
  proof (cases "isValidMove st i")
    case False
    then have "makeMove st i = (False, st, [])" by (simp add: makeMove_def)
    with Cons show ?thesis by simp
  next
    case True
    let ?st' = "fst (snd (makeMove st i))"
    from True have ok: "fst (makeMove st i)" by (simp add: makeMove_def Let_def)
    show ?thesis
    proof (cases k)
      case 0
      with ok show ?thesis by simp
    next
      case (Suc j)
      with Cons.prems ok have j: "j < length (placed ?st' rest)" by simp
      then have ng: "\<not> gameOver ?st'"
        using placed_gameOver [of ?st' rest] by auto
      with True have cp: "currentPlayer ?st' = other (currentPlayer st)"
        by (auto simp: makeMove_def Let_def other_def split: if_splits)
      from Cons.IH [OF j] cp Suc ok show ?thesis
        by (simp add: funpow_swap1)
    qed
  qed
qed

lemma other_funpow_X: "(other ^^ k) PLAYER_X = (if even k then PLAYER_X else PLAYER_O)"
  by (induction k) (auto simp: other_def)

text \<open>
  C8. In any series of \<open>makeMove\<close> calls on a fresh game the marks written alternate and
  start with \<open>X\<close>; in every state so reached the board holds as many \<open>X\<close> as \<open>O\<close> or one
  more; the invariant \<open>balanced\<close> holds initially and every call preserves it.
\<close>

theorem marks_alternate:
  "(\<forall>k<length (placed (init s) is).
      placed (init s) is ! k = (if even k then PLAYER_X else PLAYER_O)) \<and>
   (countX (run (init s) is) = countO (run (init s) is) \<or>
    countX (run (init s) is) = countO (run (init s) is) + 1) \<and>
   balanced (init s) \<and>
   (\<forall>st i. balanced st \<longrightarrow> balanced (fst (snd (makeMove st i))))"
proof -
  have cp: "currentPlayer (init s) = PLAYER_X"
    by (simp add: init_def createInitialState_def)
  have a: "\<forall>k<length (placed (init s) is).
      placed (init s) is ! k = (if even k then PLAYER_X else PLAYER_O)"
    using placed_funpow [of _ "init s" "is"] cp other_funpow_X by simp
  have "balanced (run (init s) is)"
    by (rule balanced_run [OF balanced_init])
  then have b: "countX (run (init s) is) = countO (run (init s) is) \<or>
    countX (run (init s) is) = countO (run (init s) is) + 1"
    by (simp add: balanced_def)
  from a b balanced_init balanced_makeMove show ?thesis by blast
qed

theorem marks_alternate_witness:
  "placed (init ''O'') [4, 4, 0, 9, 8] = [PLAYER_X, PLAYER_O, PLAYER_X] \<and>
   countX (run (init ''O'') [4, 4, 0, 9, 8]) = countO (run (init ''O'') [4, 4, 0, 9, 8]) + 1 \<and>
   balanced (init ''O'') \<and> balanced (fst (snd (makeMove (init ''O'') 4)))"
proof -
  have p: "placed (init ''O'') [4, 4, 0, 9, 8] = [PLAYER_X, PLAYER_O, PLAYER_X]"
    by code_simp
  have c: "countX (run (init ''O'') [4, 4, 0, 9, 8]) = 2 \<and> countO (run (init ''O'') [4, 4, 0, 9, 8]) = 1"
    by code_simp
  from p c marks_alternate [of "''O''" "[4, 4, 0, 9, 8]"] show ?thesis by simp
qed


section \<open>The program's search computes the pure search\<close>

declare abNode.simps [simp del] abMaxK.simps [simp del] abMinK.simps [simp del]

lemma line3_iff: "line3 a b c \<longleftrightarrow> a \<noteq> EMPTY \<and> a = b \<and> a = c"
  by (cases a; cases b; cases c) simp_all

lemma cellAt9:
  "cellAt [a, b, c, d, e, f, g, h, i] 0 = a"
  "cellAt [a, b, c, d, e, f, g, h, i] 1 = b"
  "cellAt [a, b, c, d, e, f, g, h, i] 2 = c"
  "cellAt [a, b, c, d, e, f, g, h, i] 3 = d"
  "cellAt [a, b, c, d, e, f, g, h, i] 4 = e"
  "cellAt [a, b, c, d, e, f, g, h, i] 5 = f"
  "cellAt [a, b, c, d, e, f, g, h, i] 6 = g"
  "cellAt [a, b, c, d, e, f, g, h, i] 7 = h"
  "cellAt [a, b, c, d, e, f, g, h, i] 8 = i"
  by (simp_all add: cellAt_nth)

lemma winnerOf_eq: "winnerOf brd = checkWinner brd"
proof (induction brd rule: winnerOf.induct)
  case (1 a b c d e f g h i)
  show ?case
    unfolding checkWinner_def AI_WINNING_COMBINATIONS_def scanCombos.simps lineMatches_def
      prod.case cellAt9 winnerOf.simps line3_iff fst_conv
    by (simp only: if_distrib [of "case_option None (\<lambda>combo. Some (cellAt _ (fst combo)))"]
        option.case fst_conv cellAt9 cong: if_cong)
qed simp_all

lemma noEmpty_eq: "noEmpty brd = isBoardFull brd"
proof (induction brd)
  case Nil
  then show ?case by (simp add: isBoardFull_def)
next
  case (Cons c cs)
  then show ?case by (cases c) (simp_all add: isBoardFull_def)
qed

lemma abNode_unfold:
  "abNode brd depth isMax alpha beta =
     (if checkWinner brd = Some PLAYER_O then Fin (SCORE_WIN - depth)
      else if checkWinner brd = Some PLAYER_X then Fin (SCORE_LOSE + depth)
      else if isBoardFull brd then Fin SCORE_DRAW
      else if isMax then abMax [] brd depth alpha beta NegInf
      else abMin [] brd depth alpha beta PosInf)"
proof (cases "winnerOf brd")
  case None
  then show ?thesis by (simp add: abNode.simps winnerOf_eq [symmetric] noEmpty_eq [symmetric])
next
  case (Some w)
  then show ?thesis
    by (cases w) (simp_all add: abNode.simps winnerOf_eq [symmetric] noEmpty_eq [symmetric])
qed

lemma abMax_Cons:
  "abMax pre (c # post) depth alpha beta best =
     (if c = EMPTY
      then abMaxK pre post depth alpha beta best
             (abNode (rev pre @ PLAYER_O # post) (depth + 1) False alpha beta)
      else abMax (c # pre) post depth alpha beta best)"
  by (cases c) (simp_all add: revApp_eq)

lemma abMin_Cons:
  "abMin pre (c # post) depth alpha beta best =
     (if c = EMPTY
      then abMinK pre post depth alpha beta best
             (abNode (rev pre @ PLAYER_X # post) (depth + 1) True alpha beta)
      else abMin (c # pre) post depth alpha beta best)"
  by (cases c) (simp_all add: revApp_eq)


lemma rootScan_Cons:
  "rootScan pre (c # post) idx bestScore bestMove =
     (if c = EMPTY
      then rootPick pre post idx bestScore bestMove
             (abNode (rev pre @ PLAYER_O # post) 0 False NegInf PosInf)
      else rootScan (c # pre) post (Suc idx) bestScore bestMove)"
  by (cases c) (simp_all add: revApp_eq)

lemma emptiesFrom_filter:
  "filter (\<lambda>i. cellAt (pre @ cs) i = EMPTY) [length pre ..< length pre + length cs] =
     emptiesFrom (length pre) cs"
proof (induction cs arbitrary: pre)
  case Nil
  then show ?case by simp
next
  case (Cons c cs)
  have c: "cellAt (pre @ c # cs) (length pre) = c"
    by (simp add: cellAt_nth)
  have u: "[length pre ..< length pre + length (c # cs)] =
      length pre # [Suc (length pre) ..< Suc (length pre + length cs)]"
    by (simp del: upt_Suc add: upt_conv_Cons)
  from Cons.IH [of "pre @ [c]"]
  have ih: "filter (\<lambda>i. cellAt (pre @ c # cs) i = EMPTY)
      [Suc (length pre) ..< Suc (length pre + length cs)] = emptiesFrom (Suc (length pre)) cs"
    by (simp del: upt_Suc)
  show ?case
    unfolding u using c ih by (auto simp del: upt_Suc)
qed

lemma getEmptyCells_emptiesFrom: "getEmptyCells brd = emptiesFrom 0 brd"
  using emptiesFrom_filter [of "[]" brd] by (simp add: getEmptyCells_def)

lemma length_emptiesFrom: "length (emptiesFrom k cs) = count_list cs EMPTY"
  by (induction cs arbitrary: k) auto

lemma emptiesFrom_Nil_iff: "emptiesFrom k cs = [] \<longleftrightarrow> count_list cs EMPTY = 0"
  by (induction cs arbitrary: k) auto

lemma length_getEmptyCells: "length (getEmptyCells brd) = count_list brd EMPTY"
  by (simp add: getEmptyCells_emptiesFrom length_emptiesFrom)

lemma set_getEmptyCells: "set (getEmptyCells brd) = {i. i < length brd \<and> brd ! i = EMPTY}"
  by (auto simp: getEmptyCells_def cellAt_nth)

lemma maxLoop_pure:
  assumes rec: "\<And>b d m a bt. count_list b EMPTY < n \<Longrightarrow> rec b d m a bt = Some (abNode b d m a bt, b)"
  shows "count_list (rev pre @ post) EMPTY \<le> n \<Longrightarrow>
     maxLoop rec (emptiesFrom (length pre) post) (rev pre @ post) depth alpha beta best =
       Some (abMax pre post depth alpha beta best, rev pre @ post)"
proof (induction post arbitrary: pre alpha best)
  case Nil
  then show ?case by simp
next
  case (Cons c post)
  show ?case
  proof (cases "c = EMPTY")
    case False
    with Cons.IH [of "c # pre" alpha best] Cons.prems show ?thesis
      by (simp add: abMax_Cons)
  next
    case True
    let ?child = "rev pre @ PLAYER_O # post"
    have upd: "(rev pre @ EMPTY # post)[length pre := PLAYER_O] = ?child"
      using list_update_length [of "rev pre" EMPTY post PLAYER_O] by simp
    have undo: "?child[length pre := EMPTY] = rev pre @ EMPTY # post"
      using list_update_length [of "rev pre" PLAYER_O post EMPTY] by simp
    from Cons.prems True have "count_list ?child EMPTY < n" by simp
    then have r: "rec ?child (depth + 1) False alpha beta =
        Some (abNode ?child (depth + 1) False alpha beta, ?child)"
      by (rule rec)
    from Cons.prems have le: "count_list (rev (EMPTY # pre) @ post) EMPTY \<le> n"
      using True by simp
    have ih: "maxLoop rec (emptiesFrom (Suc (length pre)) post) (rev pre @ EMPTY # post) depth a beta b =
        Some (abMax (EMPTY # pre) post depth a beta b, rev pre @ EMPTY # post)" for a b
      using Cons.IH [OF le, of a b] True by simp
    show ?thesis
      using True by (simp add: upd r undo ih Let_def abMaxK.simps abMax_Cons)
  qed
qed

lemma minLoop_pure:
  assumes rec: "\<And>b d m a bt. count_list b EMPTY < n \<Longrightarrow> rec b d m a bt = Some (abNode b d m a bt, b)"
  shows "count_list (rev pre @ post) EMPTY \<le> n \<Longrightarrow>
     minLoop rec (emptiesFrom (length pre) post) (rev pre @ post) depth alpha beta best =
       Some (abMin pre post depth alpha beta best, rev pre @ post)"
proof (induction post arbitrary: pre beta best)
  case Nil
  then show ?case by simp
next
  case (Cons c post)
  show ?case
  proof (cases "c = EMPTY")
    case False
    with Cons.IH [of "c # pre" beta best] Cons.prems show ?thesis
      by (simp add: abMin_Cons)
  next
    case True
    let ?child = "rev pre @ PLAYER_X # post"
    have upd: "(rev pre @ EMPTY # post)[length pre := PLAYER_X] = ?child"
      using list_update_length [of "rev pre" EMPTY post PLAYER_X] by simp
    have undo: "?child[length pre := EMPTY] = rev pre @ EMPTY # post"
      using list_update_length [of "rev pre" PLAYER_X post EMPTY] by simp
    from Cons.prems True have "count_list ?child EMPTY < n" by simp
    then have r: "rec ?child (depth + 1) True alpha beta =
        Some (abNode ?child (depth + 1) True alpha beta, ?child)"
      by (rule rec)
    from Cons.prems have le: "count_list (rev (EMPTY # pre) @ post) EMPTY \<le> n"
      using True by simp
    have ih: "minLoop rec (emptiesFrom (Suc (length pre)) post) (rev pre @ EMPTY # post) depth alpha bt b =
        Some (abMin (EMPTY # pre) post depth alpha bt b, rev pre @ EMPTY # post)" for bt b
      using Cons.IH [OF le, of bt b] True by simp
    show ?thesis
      using True by (simp add: upd r undo ih Let_def abMinK.simps abMin_Cons)
  qed
qed

lemma minimax_pure:
  "count_list brd EMPTY < fuel \<Longrightarrow>
     minimax fuel brd depth isMax alpha beta = Some (abNode brd depth isMax alpha beta, brd)"
proof (induction fuel arbitrary: brd depth isMax alpha beta)
  case 0
  then show ?case by simp
next
  case (Suc fuel)
  from Suc.prems have le: "count_list (rev [] @ brd) EMPTY \<le> fuel" by simp
  note mx = maxLoop_pure [of fuel "minimax fuel" "[]" brd, OF Suc.IH le, simplified]
  note mn = minLoop_pure [of fuel "minimax fuel" "[]" brd, OF Suc.IH le, simplified]
  show ?case
    by (simp add: abNode_unfold [of brd] getEmptyCells_emptiesFrom Let_def mx mn)
qed

lemma rootLoop_pure:
  "count_list (rev pre @ post) EMPTY \<le> fuel \<Longrightarrow>
     rootLoop fuel (emptiesFrom (length pre) post) (rev pre @ post) bestScore bestMove =
       Some (rootScan pre post (length pre) bestScore bestMove, rev pre @ post)"
proof (induction post arbitrary: pre bestScore bestMove)
  case Nil
  then show ?case by simp
next
  case (Cons c post)
  show ?case
  proof (cases "c = EMPTY")
    case False
    with Cons.IH [of "c # pre" bestScore bestMove] Cons.prems show ?thesis
      by (simp add: rootScan_Cons)
  next
    case True
    let ?child = "rev pre @ PLAYER_O # post"
    have upd: "(rev pre @ EMPTY # post)[length pre := PLAYER_O] = ?child"
      using list_update_length [of "rev pre" EMPTY post PLAYER_O] by simp
    have undo: "?child[length pre := EMPTY] = rev pre @ EMPTY # post"
      using list_update_length [of "rev pre" PLAYER_O post EMPTY] by simp
    from Cons.prems True have "count_list ?child EMPTY < fuel" by simp
    then have r: "minimax fuel ?child 0 False NegInf PosInf =
        Some (abNode ?child 0 False NegInf PosInf, ?child)"
      by (rule minimax_pure)
    from Cons.prems have le: "count_list (rev (EMPTY # pre) @ post) EMPTY \<le> fuel"
      using True by simp
    have ih: "rootLoop fuel (emptiesFrom (Suc (length pre)) post) (rev pre @ EMPTY # post) s m =
        Some (rootScan (EMPTY # pre) post (Suc (length pre)) s m, rev pre @ EMPTY # post)" for s m
      using Cons.IH [OF le, of s m] True by simp
    show ?thesis
      using True by (simp add: upd r undo ih Let_def rootScan_Cons)
  qed
qed

lemma findBestMove_pure:
  assumes "ref < length st" "count_list (st ! ref) EMPTY \<le> fuel"
  shows "findBestMove fuel r st ref = Some (bestMoveOf r (st ! ref), st @ [st ! ref])"
proof -
  have rl: "rootLoop fuel (emptiesFrom 0 (st ! ref)) (st ! ref) NegInf None =
      Some (rootScan [] (st ! ref) 0 NegInf None, st ! ref)"
    using rootLoop_pure [of "[]" "st ! ref" fuel NegInf None] assms(2) by simp
  show ?thesis
    using assms(1)
    by (simp add: findBestMove_def bestMoveOf_def Let_def length_emptiesFrom emptiesFrom_Nil_iff
        getEmptyCells_emptiesFrom rl nth_append)
qed


section \<open>Results of the engine\<close>

definition isFin :: "jsnum \<Rightarrow> bool" where
  "isFin s = (\<exists>x. s = Fin x)"

lemma isFin_simps [simp]: "isFin (Fin x)" "\<not> isFin NegInf" "\<not> isFin PosInf"
  by (simp_all add: isFin_def)

lemma isFin_max: "isFin s \<Longrightarrow> best = NegInf \<or> isFin best \<Longrightarrow> isFin (max s best)"
  by (auto simp: isFin_def max_def)

lemma isFin_min: "isFin s \<Longrightarrow> best = PosInf \<or> isFin best \<Longrightarrow> isFin (min s best)"
  by (auto simp: isFin_def min_def)

lemma noEmpty_iff: "noEmpty brd \<longleftrightarrow> EMPTY \<notin> set brd"
  by (simp add: noEmpty_eq isBoardFull_def list_all_iff) auto

lemma abNode_finite_aux:
  "isFin (abNode brd depth isMax alpha beta)"
  "isFin (abCase w brd depth isMax alpha beta)"
  "(best = NegInf \<or> isFin best) \<Longrightarrow> (best = NegInf \<Longrightarrow> EMPTY \<in> set post) \<Longrightarrow>
     isFin (abMax pre post depth alpha beta best)"
  "(best = NegInf \<or> isFin best) \<Longrightarrow> isFin score \<Longrightarrow>
     isFin (abMaxK pre post depth alpha beta best score)"
  "(best = PosInf \<or> isFin best) \<Longrightarrow> (best = PosInf \<Longrightarrow> EMPTY \<in> set post) \<Longrightarrow>
     isFin (abMin pre post depth alpha beta best)"
  "(best = PosInf \<or> isFin best) \<Longrightarrow> isFin score \<Longrightarrow>
     isFin (abMinK pre post depth alpha beta best score)"
proof (induction brd depth isMax alpha beta and w brd depth isMax alpha beta
    and pre post depth alpha beta best and pre post depth alpha beta best score
    and pre post depth alpha beta best and pre post depth alpha beta best score
    rule: abNode_abCase_abMax_abMaxK_abMin_abMinK.induct)
  case (1 brd depth isMax alpha beta)
  then show ?case by (simp add: abNode.simps)
next
  case (12 pre post depth alpha beta best score)
  from 12(2,3) have f: "isFin (max score best)" by (simp add: isFin_max)
  then have "max score best \<noteq> NegInf" by auto
  with 12(1) f show ?case by (simp add: abMaxK.simps)
next
  case (18 pre post depth alpha beta best score)
  from 18(2,3) have f: "isFin (min score best)" by (simp add: isFin_min)
  then have "min score best \<noteq> PosInf" by auto
  with 18(1) f show ?case by (simp add: abMinK.simps)
qed (auto simp: noEmpty_iff)


lemma abNode_Fin: "\<exists>x. abNode brd depth isMax alpha beta = Fin x"
  using abNode_finite_aux(1) [of brd depth isMax alpha beta] by (simp add: isFin_def)

lemma NegInf_less_Fin [simp]: "NegInf < Fin x" "Fin x < PosInf" "NegInf < PosInf"
  by (simp_all add: less_jsnum_def)

lemma randomIndex_less:
  assumes "0 \<le> r" "r < 1" "0 < n"
  shows "randomIndex r n < n"
proof -
  from assms have "r * of_nat n < of_nat n"
    by simp
  then have "\<lfloor>r * of_nat n\<rfloor> < int n"
    by (simp add: floor_less_iff)
  moreover from assms have "0 \<le> \<lfloor>r * of_nat n\<rfloor>"
    by simp
  ultimately show ?thesis
    by (simp add: randomIndex_def nat_less_iff)
qed

lemma list9: "length xs = 9 \<Longrightarrow> \<exists>a b c d e f g h i. xs = [a, b, c, d, e, f, g, h, i]"
  by (simp add: numeral_eq_Suc length_Suc_conv) blast

lemma all_empty9:
  assumes "length brd = 9" "count_list brd EMPTY = 9" "k < 9"
  shows "brd ! k = EMPTY"
proof -
  from assms(1,2) have "count_list brd EMPTY = length brd" by simp
  then have "\<forall>c\<in>set brd. c = EMPTY"
  proof (induction brd)
    case Nil
    then show ?case by simp
  next
    case (Cons c cs)
    then show ?case
      using count_le_length [of cs EMPTY] by (auto split: if_splits)
  qed
  with assms(1,3) show ?thesis by simp
qed

lemma corner_empty9:
  assumes "length brd = 9" "count_list brd EMPTY = 8" "cellAt brd 4 \<noteq> EMPTY" "k < 9" "k \<noteq> 4"
  shows "brd ! k = EMPTY"
proof -
  from list9 [OF assms(1)] obtain a b c d e f g h i where b: "brd = [a, b, c, d, e, f, g, h, i]"
    by blast
  from assms(3) b have e: "e \<noteq> EMPTY" by (simp add: cellAt9)
  from assms(2) e have "a = EMPTY \<and> b = EMPTY \<and> c = EMPTY \<and> d = EMPTY \<and> f = EMPTY \<and>
      g = EMPTY \<and> h = EMPTY \<and> i = EMPTY"
    unfolding b by (simp split: if_splits)
  with assms(4,5) b show ?thesis
    by (auto simp: nth_Cons' less_Suc_eq numeral_eq_Suc)
qed

definition emptyAt :: "board \<Rightarrow> nat \<Rightarrow> bool" where
  "emptyAt brd j = (j < length brd \<and> brd ! j = EMPTY)"

lemma rootScan_Some:
  "(\<And>k. bestMove = Some k \<Longrightarrow> emptyAt (rev pre @ post) k) \<Longrightarrow>
   rootScan pre post (length pre) bestScore bestMove = Some j \<Longrightarrow>
   emptyAt (rev pre @ post) j"
proof (induction post arbitrary: pre bestScore bestMove)
  case Nil
  then show ?case by simp
next
  case (Cons c post)
  have eq: "rev (c # pre) @ post = rev pre @ c # post" by simp
  show ?case
  proof (cases "c = EMPTY")
    case False
    with Cons.prems(2) have "rootScan (c # pre) post (length (c # pre)) bestScore bestMove = Some j"
      by (simp add: rootScan_Cons)
    from Cons.IH [OF _ this] Cons.prems(1) show ?thesis
      unfolding eq by blast
  next
    case True
    let ?s = "abNode (rev pre @ PLAYER_O # post) 0 False NegInf PosInf"
    have here: "emptyAt (rev pre @ c # post) (length pre)"
      using True by (simp add: emptyAt_def nth_append)
    show ?thesis
    proof (cases "?s > bestScore")
      case gt: True
      with Cons.prems(2) True
      have "rootScan (c # pre) post (length (c # pre)) ?s (Some (length pre)) = Some j"
        by (simp add: rootScan_Cons del: rootScan.simps)
      from Cons.IH [OF _ this] here show ?thesis
        unfolding eq by simp
    next
      case ngt: False
      with Cons.prems(2) True
      have "rootScan (c # pre) post (length (c # pre)) bestScore bestMove = Some j"
        by (simp add: rootScan_Cons del: rootScan.simps)
      from Cons.IH [OF _ this] Cons.prems(1) show ?thesis
        unfolding eq by blast
    qed
  qed
qed

lemma rootScan_None:
  "(bestMove = None \<Longrightarrow> bestScore = NegInf) \<Longrightarrow>
   rootScan pre post idx bestScore bestMove = None \<Longrightarrow>
   bestMove = None \<and> EMPTY \<notin> set post"
proof (induction post arbitrary: pre idx bestScore bestMove)
  case Nil
  then show ?case by simp
next
  case (Cons c post)
  show ?case
  proof (cases "c = EMPTY")
    case False
    with Cons.prems(2) have "rootScan (c # pre) post (Suc idx) bestScore bestMove = None"
      by (simp add: rootScan_Cons)
    from Cons.IH [OF _ this] Cons.prems(1) False show ?thesis by simp
  next
    case True
    let ?s = "abNode (rev pre @ PLAYER_O # post) 0 False NegInf PosInf"
    obtain x where x: "?s = Fin x"
      using abNode_Fin by blast
    show ?thesis
    proof (cases "?s > bestScore")
      case gt: True
      with Cons.prems(2) True
      have "rootScan (c # pre) post (Suc idx) ?s (Some idx) = None"
        by (simp add: rootScan_Cons del: rootScan.simps)
      from Cons.IH [OF _ this] show ?thesis by simp
    next
      case ngt: False
      with x have ne: "bestScore \<noteq> NegInf" by auto
      from ngt Cons.prems(2) True
      have "rootScan (c # pre) post (Suc idx) bestScore bestMove = None"
        by (simp add: rootScan_Cons del: rootScan.simps)
      from Cons.IH [OF _ this] Cons.prems(1) ne show ?thesis by blast
    qed
  qed
qed

lemma count_EMPTY_0_iff: "count_list brd EMPTY = 0 \<longleftrightarrow> EMPTY \<notin> set brd"
  by (simp add: count_list_0_iff)

lemma bestMoveOf_legal:
  assumes len: "length brd = 9" and r: "0 \<le> r" "r < 1"
  shows "(bestMoveOf r brd = None \<longleftrightarrow> EMPTY \<notin> set brd) \<and>
         (\<forall>i. bestMoveOf r brd = Some i \<longrightarrow> emptyAt brd i)"
proof -
  consider (full) "count_list brd EMPTY = 0"
    | (fresh) "count_list brd EMPTY = 9"
    | (centre) "count_list brd EMPTY = 8" "cellAt brd 4 \<noteq> EMPTY"
    | (search) "count_list brd EMPTY \<noteq> 0" "count_list brd EMPTY \<noteq> 9"
        "\<not> (count_list brd EMPTY = 8 \<and> cellAt brd 4 \<noteq> EMPTY)"
    by blast
  then show ?thesis
  proof cases
    case full
    then show ?thesis by (simp add: bestMoveOf_def count_EMPTY_0_iff)
  next
    case fresh
    let ?m = "[0, 2, 4, 6, 8] ! randomIndex r 5 :: nat"
    have "randomIndex r 5 < 5" by (rule randomIndex_less [OF r]) simp
    then have "?m \<in> set [0, 2, 4, 6, 8]" by (intro nth_mem) simp
    then have m: "?m < 9" by auto
    with all_empty9 [OF len fresh] have "emptyAt brd ?m" by (simp add: emptyAt_def len)
    moreover from fresh have "EMPTY \<in> set brd" using count_EMPTY_0_iff [of brd] by auto
    ultimately show ?thesis using fresh by (simp add: bestMoveOf_def)
  next
    case centre
    let ?m = "[0, 2, 6, 8] ! randomIndex r 4 :: nat"
    have "randomIndex r 4 < 4" by (rule randomIndex_less [OF r]) simp
    then have "?m \<in> set [0, 2, 6, 8]" by (intro nth_mem) simp
    then have m: "?m < 9" "?m \<noteq> 4" by auto
    with corner_empty9 [OF len centre] have "emptyAt brd ?m" by (simp add: emptyAt_def len)
    moreover from centre have "EMPTY \<in> set brd" using count_EMPTY_0_iff [of brd] by auto
    ultimately show ?thesis using centre by (simp add: bestMoveOf_def)
  next
    case search
    then have bm: "bestMoveOf r brd = rootScan [] brd 0 NegInf None"
      by (auto simp: bestMoveOf_def)
    from search(1) have ne: "EMPTY \<in> set brd" by (simp add: count_EMPTY_0_iff)
    have "rootScan [] brd 0 NegInf None \<noteq> None"
      using rootScan_None [of None NegInf "[]" brd 0] ne by auto
    moreover have "emptyAt brd i" if "rootScan [] brd 0 NegInf None = Some i" for i
      using rootScan_Some [of None "[]" brd NegInf i] that by simp
    ultimately show ?thesis using bm ne by auto
  qed
qed

lemma findRandomMove_legal:
  assumes r: "0 \<le> r" "r < 1" and ref: "ref < length st"
  shows "snd (findRandomMove r st ref) = st \<and>
         (fst (findRandomMove r st ref) = None \<longleftrightarrow> EMPTY \<notin> set (st ! ref)) \<and>
         (\<forall>i. fst (findRandomMove r st ref) = Some i \<longrightarrow> emptyAt (st ! ref) i)"
proof (cases "getEmptyCells (st ! ref) = []")
  case True
  then have "EMPTY \<notin> set (st ! ref)"
    using set_getEmptyCells [of "st ! ref"] by (auto simp: in_set_conv_nth)
  with True show ?thesis by (simp add: findRandomMove_def)
next
  case False
  let ?es = "getEmptyCells (st ! ref)"
  from False have "randomIndex r (length ?es) < length ?es"
    by (intro randomIndex_less [OF r]) simp
  then have "?es ! randomIndex r (length ?es) \<in> set ?es" by (rule nth_mem)
  then have e: "emptyAt (st ! ref) (?es ! randomIndex r (length ?es))"
    by (simp add: set_getEmptyCells emptyAt_def)
  then have "EMPTY \<in> set (st ! ref)"
    unfolding emptyAt_def using nth_mem by metis
  with False e show ?thesis by (simp add: findRandomMove_def Let_def)
qed

text \<open>
  C7. On a board of nine cells, with either strategy (\<open>'easy'\<close> is the random one, every
  other string the optimal one), the engine returns, given fuel for nine levels of
  recursion: the result is \<open>null\<close> exactly when the board has no empty cell, and an index
  it returns is the index of an empty cell of the board. \<open>r\<close> is the value Math.random()
  yields.
\<close>

theorem chooseMove_none_iff:
  assumes "ref < length st" and "length (st ! ref) = 9" and "9 \<le> fuel"
    and "0 \<le> r" and "r < 1"
  shows "\<exists>m st'. getMoveWithDifficultyAndDelay fuel r st ref delay difficulty = Some (m, st') \<and>
           (m = None \<longleftrightarrow> EMPTY \<notin> set (st ! ref)) \<and>
           (\<forall>i. m = Some i \<longrightarrow> i < 9 \<and> st ! ref ! i = EMPTY)"
proof (cases "difficulty = ''easy''")
  case True
  obtain m st' where f: "findRandomMove r st ref = (m, st')" by (cases "findRandomMove r st ref")
  with findRandomMove_legal [OF assms(4,5,1)] assms(2) True show ?thesis
    by (simp add: getMoveWithDifficultyAndDelay_def emptyAt_def)
next
  case False
  have "count_list (st ! ref) EMPTY \<le> length (st ! ref)" by (rule count_le_length)
  with assms(2,3) have c: "count_list (st ! ref) EMPTY \<le> fuel" by simp
  from findBestMove_pure [OF assms(1) c] bestMoveOf_legal [OF assms(2,4,5)] assms(2) False
  show ?thesis
    by (simp add: getMoveWithDifficultyAndDelay_def emptyAt_def)
qed

theorem chooseMove_none_iff_witness:
  "(\<exists>m st'. getMoveWithDifficultyAndDelay 9 0
       [[PLAYER_X, PLAYER_X, EMPTY, PLAYER_O, EMPTY, EMPTY, EMPTY, EMPTY, EMPTY]] 0 400 ''hard''
         = Some (m, st') \<and>
       (m = None \<longleftrightarrow>
          EMPTY \<notin> set ([[PLAYER_X, PLAYER_X, EMPTY, PLAYER_O, EMPTY, EMPTY, EMPTY, EMPTY, EMPTY]] ! 0)) \<and>
       (\<forall>i. m = Some i \<longrightarrow> i < 9 \<and>
          [[PLAYER_X, PLAYER_X, EMPTY, PLAYER_O, EMPTY, EMPTY, EMPTY, EMPTY, EMPTY]] ! 0 ! i = EMPTY))"
  using chooseMove_none_iff
    [of 0 "[[PLAYER_X, PLAYER_X, EMPTY, PLAYER_O, EMPTY, EMPTY, EMPTY, EMPTY, EMPTY]]" 9 0 400 "''hard''"]
  by simp

text \<open>
  C9. \<open>findBestMove\<close> leaves every array of the caller's store as it was, the board it
  was given among them (it writes to the copy it allocates only); \<open>findRandomMove\<close>
  leaves the store unchanged; and \<open>minimax\<close> returns the array it worked on with every
  cell restored.
\<close>

theorem engine_preserves_board:
  assumes "ref < length st" and "count_list (st ! ref) EMPTY \<le> fuel"
  shows "(\<exists>m st'. findBestMove fuel r st ref = Some (m, st') \<and>
            take (length st) st' = st \<and> st' ! ref = st ! ref) \<and>
         (\<exists>m. findRandomMove r st ref = (m, st)) \<and>
         (\<forall>brd depth isMaximizing alpha beta. count_list brd EMPTY < fuel \<longrightarrow>
            (\<exists>score. minimax fuel brd depth isMaximizing alpha beta = Some (score, brd)))"
proof -
  have a: "\<exists>m st'. findBestMove fuel r st ref = Some (m, st') \<and>
            take (length st) st' = st \<and> st' ! ref = st ! ref"
    using findBestMove_pure [OF assms] assms(1) by (simp add: nth_append)
  have b: "\<exists>m. findRandomMove r st ref = (m, st)"
    by (simp add: findRandomMove_def Let_def)
  have c: "\<forall>brd depth isMaximizing alpha beta. count_list brd EMPTY < fuel \<longrightarrow>
            (\<exists>score. minimax fuel brd depth isMaximizing alpha beta = Some (score, brd))"
    by (simp add: minimax_pure)
  from a b c show ?thesis by blast
qed

theorem engine_preserves_board_witness:
  "(\<exists>m st'. findBestMove 9 0
        [[PLAYER_X, PLAYER_X, EMPTY, PLAYER_O, EMPTY, EMPTY, EMPTY, EMPTY, EMPTY]] 0 = Some (m, st') \<and>
      take (length [[PLAYER_X, PLAYER_X, EMPTY, PLAYER_O, EMPTY, EMPTY, EMPTY, EMPTY, EMPTY]]) st' =
        [[PLAYER_X, PLAYER_X, EMPTY, PLAYER_O, EMPTY, EMPTY, EMPTY, EMPTY, EMPTY]] \<and>
      st' ! 0 = [[PLAYER_X, PLAYER_X, EMPTY, PLAYER_O, EMPTY, EMPTY, EMPTY, EMPTY, EMPTY]] ! 0) \<and>
   (\<exists>score. minimax 9 [PLAYER_X, PLAYER_X, PLAYER_O, PLAYER_O, EMPTY, EMPTY, EMPTY, EMPTY, EMPTY]
      0 False NegInf PosInf =
      Some (score, [PLAYER_X, PLAYER_X, PLAYER_O, PLAYER_O, EMPTY, EMPTY, EMPTY, EMPTY, EMPTY]))"
proof -
  let ?b = "[PLAYER_X, PLAYER_X, EMPTY, PLAYER_O, EMPTY, EMPTY, EMPTY, EMPTY, EMPTY]"
  let ?c = "[PLAYER_X, PLAYER_X, PLAYER_O, PLAYER_O, EMPTY, EMPTY, EMPTY, EMPTY, EMPTY]"
  have h: "0 < length [?b]" "count_list ([?b] ! 0) EMPTY \<le> 9" "count_list ?c EMPTY < 9"
    by simp_all
  from engine_preserves_board [OF h(1,2), of 0] h(3) show ?thesis by blast
qed

section \<open>Concrete positions\<close>

lemma rootScan_scenario2:
  "rootScan [] [PLAYER_X, PLAYER_X, EMPTY, PLAYER_O, PLAYER_O, EMPTY, EMPTY, EMPTY, EMPTY] 0 NegInf None
     = Some 5"
  by code_simp

lemma rootScan_scenario3:
  "rootScan [] [PLAYER_O, PLAYER_O, EMPTY, PLAYER_X, PLAYER_X, EMPTY, EMPTY, EMPTY, EMPTY] 0 NegInf None
     = Some 2"
  by code_simp

lemma bestMoveOf_scenario2:
  "bestMoveOf r [PLAYER_X, PLAYER_X, EMPTY, PLAYER_O, PLAYER_O, EMPTY, EMPTY, EMPTY, EMPTY] = Some 5"
  by (simp add: bestMoveOf_def rootScan_scenario2 del: rootScan.simps)

lemma bestMoveOf_scenario3:
  "bestMoveOf r [PLAYER_O, PLAYER_O, EMPTY, PLAYER_X, PLAYER_X, EMPTY, EMPTY, EMPTY, EMPTY] = Some 2"
  by (simp add: bestMoveOf_def rootScan_scenario3 del: rootScan.simps)

text \<open>
  C2, as the program behaves. On the board \<open>[X, X, _, O, O, _, _, _, _]\<close> the optimal engine,
  which moves for \<open>O\<close>, returns index 5: it completes its own row 3-4-5 and wins at once,
  rather than blocking at index 2.
\<close>

theorem scenario2_choice:
  "5 \<le> fuel \<Longrightarrow>
     findBestMove fuel r
       [[PLAYER_X, PLAYER_X, EMPTY, PLAYER_O, PLAYER_O, EMPTY, EMPTY, EMPTY, EMPTY]] 0 =
     Some (Some 5,
       [[PLAYER_X, PLAYER_X, EMPTY, PLAYER_O, PLAYER_O, EMPTY, EMPTY, EMPTY, EMPTY],
        [PLAYER_X, PLAYER_X, EMPTY, PLAYER_O, PLAYER_O, EMPTY, EMPTY, EMPTY, EMPTY]])"
  using findBestMove_pure
    [of 0 "[[PLAYER_X, PLAYER_X, EMPTY, PLAYER_O, PLAYER_O, EMPTY, EMPTY, EMPTY, EMPTY]]" fuel r]
  by (simp add: bestMoveOf_scenario2)

theorem scenario2_choice_witness:
  "findBestMove 9 0
       [[PLAYER_X, PLAYER_X, EMPTY, PLAYER_O, PLAYER_O, EMPTY, EMPTY, EMPTY, EMPTY]] 0 =
     Some (Some 5,
       [[PLAYER_X, PLAYER_X, EMPTY, PLAYER_O, PLAYER_O, EMPTY, EMPTY, EMPTY, EMPTY],
        [PLAYER_X, PLAYER_X, EMPTY, PLAYER_O, PLAYER_O, EMPTY, EMPTY, EMPTY, EMPTY]])"
  using scenario2_choice [of 9 0] by simp

text \<open>C2 as stated fails: on that board the engine does not return index 2.\<close>

theorem scenario2_block_counterexample:
  "map_option fst (findBestMove 9 0
       [[PLAYER_X, PLAYER_X, EMPTY, PLAYER_O, PLAYER_O, EMPTY, EMPTY, EMPTY, EMPTY]] 0) \<noteq>
     Some (Some 2)"
  using findBestMove_pure
    [of 0 "[[PLAYER_X, PLAYER_X, EMPTY, PLAYER_O, PLAYER_O, EMPTY, EMPTY, EMPTY, EMPTY]]" 9 0]
  by (simp add: bestMoveOf_scenario2)

text \<open>
  C3. The engine has no symbol parameter and always moves for \<open>O\<close>. With the AI holding
  \<open>X\<close> on the board \<open>[X, X, _, O, O, _, _, _, _]\<close>, \<open>triggerAIMove\<close> plays index 5, the
  cell that is best for \<open>O\<close>; on the board with the marks exchanged the engine returns
  index 2, so the move for \<open>X\<close> on a board is not the move for \<open>O\<close> on the exchanged
  board.
\<close>

theorem engine_ignores_symbol:
  "triggerAIMove 9 0 ''hard''
     \<lparr>board = [PLAYER_X, PLAYER_X, EMPTY, PLAYER_O, PLAYER_O, EMPTY, EMPTY, EMPTY, EMPTY],
      currentPlayer = PLAYER_X, gameOver = False, winner = None, winningLine = None,
      playerSymbol = PLAYER_O, aiSymbol = PLAYER_X\<rparr> =
   Some \<lparr>board = [PLAYER_X, PLAYER_X, EMPTY, PLAYER_O, PLAYER_O, PLAYER_X, EMPTY, EMPTY, EMPTY],
      currentPlayer = PLAYER_O, gameOver = False, winner = None, winningLine = None,
      playerSymbol = PLAYER_O, aiSymbol = PLAYER_X\<rparr> \<and>
   map_option fst (findBestMove 9 0
     [[PLAYER_X, PLAYER_X, EMPTY, PLAYER_O, PLAYER_O, EMPTY, EMPTY, EMPTY, EMPTY]] 0) = Some (Some 5) \<and>
   map_option fst (findBestMove 9 0
     [swapMarks [PLAYER_X, PLAYER_X, EMPTY, PLAYER_O, PLAYER_O, EMPTY, EMPTY, EMPTY, EMPTY]] 0) =
     Some (Some 2)"
proof -
  let ?b = "[PLAYER_X, PLAYER_X, EMPTY, PLAYER_O, PLAYER_O, EMPTY, EMPTY, EMPTY, EMPTY]"
  let ?s = "[PLAYER_O, PLAYER_O, EMPTY, PLAYER_X, PLAYER_X, EMPTY, EMPTY, EMPTY, EMPTY]"
  have sw: "swapMarks ?b = ?s" by (simp add: swapMarks_def)
  have f: "findBestMove 9 0 [?b] 0 = Some (Some 5, [?b, ?b])"
    using findBestMove_pure [of 0 "[?b]" 9 0] by (simp add: bestMoveOf_scenario2)
  have g: "findBestMove 9 0 [?s] 0 = Some (Some 2, [?s, ?s])"
    using findBestMove_pure [of 0 "[?s]" 9 0] by (simp add: bestMoveOf_scenario3)
  have m: "makeMove \<lparr>board = ?b, currentPlayer = PLAYER_X, gameOver = False, winner = None,
      winningLine = None, playerSymbol = PLAYER_O, aiSymbol = PLAYER_X\<rparr> 5 =
    (True, \<lparr>board = [PLAYER_X, PLAYER_X, EMPTY, PLAYER_O, PLAYER_O, PLAYER_X, EMPTY, EMPTY, EMPTY],
      currentPlayer = PLAYER_O, gameOver = False, winner = None, winningLine = None,
      playerSymbol = PLAYER_O, aiSymbol = PLAYER_X\<rparr>,
     [StateChange \<lparr>board = [PLAYER_X, PLAYER_X, EMPTY, PLAYER_O, PLAYER_O, PLAYER_X, EMPTY, EMPTY, EMPTY],
      currentPlayer = PLAYER_O, gameOver = False, winner = None, winningLine = None,
      playerSymbol = PLAYER_O, aiSymbol = PLAYER_X\<rparr>])"
    by code_simp
  show ?thesis
    by (simp add: triggerAIMove_def getMoveWithDifficultyAndDelay_def f g sw m Let_def)
qed


section \<open>The opening shortcuts\<close>

text \<open>
  The score the loop of \<open>findBestMove\<close> computes for the cell \<open>i\<close>: the result of the search
  on the board with \<open>O\<close> written at \<open>i\<close>.
\<close>

definition cellScore :: "nat \<Rightarrow> board \<Rightarrow> nat \<Rightarrow> jsnum option" where
  "cellScore fuel brd i =
     map_option fst (minimax fuel (brd[i := PLAYER_O]) 0 False NegInf PosInf)"

text \<open>
  \<open>findBestMove\<close> returns a cell of \<open>cells\<close>, and no empty cell has a higher score than the
  returned one.
\<close>

definition shortcutOptimal :: "nat \<Rightarrow> rat \<Rightarrow> board \<Rightarrow> nat set \<Rightarrow> bool" where
  "shortcutOptimal fuel r brd cells =
     (\<exists>m s. map_option fst (findBestMove fuel r [brd] 0) = Some (Some m) \<and> m \<in> cells \<and>
        cellScore fuel brd m = Some s \<and>
        (\<forall>i\<in>set (getEmptyCells brd). \<exists>s'. cellScore fuel brd i = Some s' \<and> s' \<le> s))"

definition scoreAt :: "board \<Rightarrow> nat \<Rightarrow> jsnum" where
  "scoreAt brd i = abNode (brd[i := PLAYER_O]) 0 False NegInf PosInf"

lemma count_EMPTY_update:
  "i < length brd \<Longrightarrow> brd ! i = EMPTY \<Longrightarrow> v \<noteq> EMPTY \<Longrightarrow>
     Suc (count_list (brd[i := v]) EMPTY) = count_list brd EMPTY"
proof (induction brd arbitrary: i)
  case Nil
  then show ?case by simp
next
  case (Cons c cs)
  then show ?case by (cases i) auto
qed

lemma cellScore_pure:
  assumes "i \<in> set (getEmptyCells brd)" "count_list brd EMPTY \<le> fuel"
  shows "cellScore fuel brd i = Some (scoreAt brd i)"
proof -
  from assms(1) have "i < length brd" "brd ! i = EMPTY"
    by (simp_all add: set_getEmptyCells)
  from count_EMPTY_update [OF this, of PLAYER_O] assms(2)
  have "count_list (brd[i := PLAYER_O]) EMPTY < fuel" by simp
  then show ?thesis
    by (simp add: cellScore_def scoreAt_def minimax_pure)
qed

lemma scoreAt_e0:
  "scoreAt [EMPTY, EMPTY, EMPTY, EMPTY, EMPTY, EMPTY, EMPTY, EMPTY, EMPTY] 0 = Fin 0"
  by code_simp

lemma scoreAt_e1:
  "scoreAt [EMPTY, EMPTY, EMPTY, EMPTY, EMPTY, EMPTY, EMPTY, EMPTY, EMPTY] 1 = Fin 0"
  by code_simp

lemma scoreAt_e2:
  "scoreAt [EMPTY, EMPTY, EMPTY, EMPTY, EMPTY, EMPTY, EMPTY, EMPTY, EMPTY] 2 = Fin 0"
  by code_simp

lemma scoreAt_e3:
  "scoreAt [EMPTY, EMPTY, EMPTY, EMPTY, EMPTY, EMPTY, EMPTY, EMPTY, EMPTY] 3 = Fin 0"
  by code_simp

lemma scoreAt_e4:
  "scoreAt [EMPTY, EMPTY, EMPTY, EMPTY, EMPTY, EMPTY, EMPTY, EMPTY, EMPTY] 4 = Fin 0"
  by code_simp

lemma scoreAt_e5:
  "scoreAt [EMPTY, EMPTY, EMPTY, EMPTY, EMPTY, EMPTY, EMPTY, EMPTY, EMPTY] 5 = Fin 0"
  by code_simp

lemma scoreAt_e6:
  "scoreAt [EMPTY, EMPTY, EMPTY, EMPTY, EMPTY, EMPTY, EMPTY, EMPTY, EMPTY] 6 = Fin 0"
  by code_simp

lemma scoreAt_e7:
  "scoreAt [EMPTY, EMPTY, EMPTY, EMPTY, EMPTY, EMPTY, EMPTY, EMPTY, EMPTY] 7 = Fin 0"
  by code_simp

lemma scoreAt_e8:
  "scoreAt [EMPTY, EMPTY, EMPTY, EMPTY, EMPTY, EMPTY, EMPTY, EMPTY, EMPTY] 8 = Fin 0"
  by code_simp

lemmas scores_e = scoreAt_e0 scoreAt_e1 scoreAt_e2 scoreAt_e3 scoreAt_e4 scoreAt_e5 scoreAt_e6 scoreAt_e7 scoreAt_e8

lemma scoreAt_x0:
  "scoreAt [EMPTY, EMPTY, EMPTY, EMPTY, PLAYER_X, EMPTY, EMPTY, EMPTY, EMPTY] 0 = Fin 0"
  by code_simp

lemma scoreAt_x1:
  "scoreAt [EMPTY, EMPTY, EMPTY, EMPTY, PLAYER_X, EMPTY, EMPTY, EMPTY, EMPTY] 1 = Fin (- 5)"
  by code_simp

lemma scoreAt_x2:
  "scoreAt [EMPTY, EMPTY, EMPTY, EMPTY, PLAYER_X, EMPTY, EMPTY, EMPTY, EMPTY] 2 = Fin 0"
  by code_simp

lemma scoreAt_x3:
  "scoreAt [EMPTY, EMPTY, EMPTY, EMPTY, PLAYER_X, EMPTY, EMPTY, EMPTY, EMPTY] 3 = Fin (- 5)"
  by code_simp

lemma scoreAt_x5:
  "scoreAt [EMPTY, EMPTY, EMPTY, EMPTY, PLAYER_X, EMPTY, EMPTY, EMPTY, EMPTY] 5 = Fin (- 5)"
  by code_simp

lemma scoreAt_x6:
  "scoreAt [EMPTY, EMPTY, EMPTY, EMPTY, PLAYER_X, EMPTY, EMPTY, EMPTY, EMPTY] 6 = Fin 0"
  by code_simp

lemma scoreAt_x7:
  "scoreAt [EMPTY, EMPTY, EMPTY, EMPTY, PLAYER_X, EMPTY, EMPTY, EMPTY, EMPTY] 7 = Fin (- 5)"
  by code_simp

lemma scoreAt_x8:
  "scoreAt [EMPTY, EMPTY, EMPTY, EMPTY, PLAYER_X, EMPTY, EMPTY, EMPTY, EMPTY] 8 = Fin 0"
  by code_simp

lemmas scores_x = scoreAt_x0 scoreAt_x1 scoreAt_x2 scoreAt_x3 scoreAt_x5 scoreAt_x6 scoreAt_x7 scoreAt_x8

lemma scoreAt_o0:
  "scoreAt [EMPTY, EMPTY, EMPTY, EMPTY, PLAYER_O, EMPTY, EMPTY, EMPTY, EMPTY] 0 = Fin 6"
  by code_simp

lemma scoreAt_o1:
  "scoreAt [EMPTY, EMPTY, EMPTY, EMPTY, PLAYER_O, EMPTY, EMPTY, EMPTY, EMPTY] 1 = Fin 6"
  by code_simp

lemma scoreAt_o2:
  "scoreAt [EMPTY, EMPTY, EMPTY, EMPTY, PLAYER_O, EMPTY, EMPTY, EMPTY, EMPTY] 2 = Fin 6"
  by code_simp

lemma scoreAt_o3:
  "scoreAt [EMPTY, EMPTY, EMPTY, EMPTY, PLAYER_O, EMPTY, EMPTY, EMPTY, EMPTY] 3 = Fin 6"
  by code_simp

lemma scoreAt_o5:
  "scoreAt [EMPTY, EMPTY, EMPTY, EMPTY, PLAYER_O, EMPTY, EMPTY, EMPTY, EMPTY] 5 = Fin 6"
  by code_simp

lemma scoreAt_o6:
  "scoreAt [EMPTY, EMPTY, EMPTY, EMPTY, PLAYER_O, EMPTY, EMPTY, EMPTY, EMPTY] 6 = Fin 6"
  by code_simp

lemma scoreAt_o7:
  "scoreAt [EMPTY, EMPTY, EMPTY, EMPTY, PLAYER_O, EMPTY, EMPTY, EMPTY, EMPTY] 7 = Fin 6"
  by code_simp

lemma scoreAt_o8:
  "scoreAt [EMPTY, EMPTY, EMPTY, EMPTY, PLAYER_O, EMPTY, EMPTY, EMPTY, EMPTY] 8 = Fin 6"
  by code_simp

lemmas scores_o = scoreAt_o0 scoreAt_o1 scoreAt_o2 scoreAt_o3 scoreAt_o5 scoreAt_o6 scoreAt_o7 scoreAt_o8

lemma empties_e:
  "getEmptyCells [EMPTY, EMPTY, EMPTY, EMPTY, EMPTY, EMPTY, EMPTY, EMPTY, EMPTY] = [0, 1, 2, 3, 4, 5, 6, 7, 8]"
  by code_simp

lemma empties_x:
  "getEmptyCells [EMPTY, EMPTY, EMPTY, EMPTY, PLAYER_X, EMPTY, EMPTY, EMPTY, EMPTY] = [0, 1, 2, 3, 5, 6, 7, 8]"
  by code_simp

lemma empties_o:
  "getEmptyCells [EMPTY, EMPTY, EMPTY, EMPTY, PLAYER_O, EMPTY, EMPTY, EMPTY, EMPTY] = [0, 1, 2, 3, 5, 6, 7, 8]"
  by code_simp

lemma pick5: "k < 5 \<Longrightarrow> ([0, 2, 4, 6, 8] ! k :: nat) \<in> {0, 2, 4, 6, 8}"
  by (auto simp: less_Suc_eq numeral_eq_Suc)

lemma pick4: "k < 4 \<Longrightarrow> ([0, 2, 6, 8] ! k :: nat) \<in> {0, 2, 6, 8}"
  by (auto simp: less_Suc_eq numeral_eq_Suc)

lemma shortcut_empty:
  assumes "9 \<le> fuel" "0 \<le> r" "r < 1"
  shows "shortcutOptimal fuel r [EMPTY, EMPTY, EMPTY, EMPTY, EMPTY, EMPTY, EMPTY, EMPTY, EMPTY] {0, 2, 4, 6, 8}"
proof -
  let ?b = "[EMPTY, EMPTY, EMPTY, EMPTY, EMPTY, EMPTY, EMPTY, EMPTY, EMPTY]"
  let ?m = "[0, 2, 4, 6, 8] ! randomIndex r 5 :: nat"
  have c: "count_list ?b EMPTY = 9" by simp
  with assms(1) have cf: "count_list ?b EMPTY \<le> fuel" by simp
  have "findBestMove fuel r [?b] 0 = Some (bestMoveOf r ?b, [?b, ?b])"
    using findBestMove_pure [of 0 "[?b]" fuel r] cf by simp
  moreover have "bestMoveOf r ?b = Some ?m"
    by (simp add: bestMoveOf_def)
  ultimately have f: "map_option fst (findBestMove fuel r [?b] 0) = Some (Some ?m)" by simp
  have "randomIndex r 5 < 5" by (rule randomIndex_less [OF assms(2,3)]) simp
  then have m: "?m \<in> {0, 2, 4, 6, 8}" by (rule pick5)
  have all: "cellScore fuel ?b i = Some (Fin 0)" if "i \<in> set (getEmptyCells ?b)" for i
  proof -
    from that have "scoreAt ?b i = Fin 0"
      unfolding empties_e using scores_e by auto
    with cellScore_pure [OF that cf] show ?thesis by simp
  qed
  from m have "?m \<in> set (getEmptyCells ?b)" unfolding empties_e by auto
  then have "cellScore fuel ?b ?m = Some (Fin 0)" by (rule all)
  with f m all show ?thesis
    unfolding shortcutOptimal_def by (intro exI [of _ ?m] exI [of _ "Fin 0"]) auto
qed

lemma shortcut_centre_x:
  assumes "9 \<le> fuel" "0 \<le> r" "r < 1"
  shows "shortcutOptimal fuel r [EMPTY, EMPTY, EMPTY, EMPTY, PLAYER_X, EMPTY, EMPTY, EMPTY, EMPTY] {0, 2, 6, 8}"
proof -
  let ?b = "[EMPTY, EMPTY, EMPTY, EMPTY, PLAYER_X, EMPTY, EMPTY, EMPTY, EMPTY]"
  let ?m = "[0, 2, 6, 8] ! randomIndex r 4 :: nat"
  have c: "count_list ?b EMPTY = 8" by simp
  with assms(1) have cf: "count_list ?b EMPTY \<le> fuel" by simp
  have "findBestMove fuel r [?b] 0 = Some (bestMoveOf r ?b, [?b, ?b])"
    using findBestMove_pure [of 0 "[?b]" fuel r] cf by simp
  moreover have "bestMoveOf r ?b = Some ?m"
    by (simp add: bestMoveOf_def cellAt9)
  ultimately have f: "map_option fst (findBestMove fuel r [?b] 0) = Some (Some ?m)" by simp
  have "randomIndex r 4 < 4" by (rule randomIndex_less [OF assms(2,3)]) simp
  then have m: "?m \<in> {0, 2, 6, 8}" by (rule pick4)
  have all: "\<exists>s'. cellScore fuel ?b i = Some s' \<and> s' \<le> Fin 0"
    if "i \<in> set (getEmptyCells ?b)" for i
  proof -
    from that have "scoreAt ?b i \<le> Fin 0"
      unfolding empties_x using scores_x by auto
    with cellScore_pure [OF that cf] show ?thesis by simp
  qed
  from m have mem: "?m \<in> set (getEmptyCells ?b)" unfolding empties_x by auto
  from m have "scoreAt ?b ?m = Fin 0" using scores_x by auto
  with cellScore_pure [OF mem cf] have "cellScore fuel ?b ?m = Some (Fin 0)" by simp
  with f m all show ?thesis
    unfolding shortcutOptimal_def by (intro exI [of _ ?m] exI [of _ "Fin 0"]) auto
qed

lemma shortcut_centre_o:
  assumes "9 \<le> fuel" "0 \<le> r" "r < 1"
  shows "shortcutOptimal fuel r [EMPTY, EMPTY, EMPTY, EMPTY, PLAYER_O, EMPTY, EMPTY, EMPTY, EMPTY] {0, 2, 6, 8}"
proof -
  let ?b = "[EMPTY, EMPTY, EMPTY, EMPTY, PLAYER_O, EMPTY, EMPTY, EMPTY, EMPTY]"
  let ?m = "[0, 2, 6, 8] ! randomIndex r 4 :: nat"
  have c: "count_list ?b EMPTY = 8" by simp
  with assms(1) have cf: "count_list ?b EMPTY \<le> fuel" by simp
  have "findBestMove fuel r [?b] 0 = Some (bestMoveOf r ?b, [?b, ?b])"
    using findBestMove_pure [of 0 "[?b]" fuel r] cf by simp
  moreover have "bestMoveOf r ?b = Some ?m"
    by (simp add: bestMoveOf_def cellAt9)
  ultimately have f: "map_option fst (findBestMove fuel r [?b] 0) = Some (Some ?m)" by simp
  have "randomIndex r 4 < 4" by (rule randomIndex_less [OF assms(2,3)]) simp
  then have m: "?m \<in> {0, 2, 6, 8}" by (rule pick4)
  have all: "\<exists>s'. cellScore fuel ?b i = Some s' \<and> s' \<le> Fin 6"
    if "i \<in> set (getEmptyCells ?b)" for i
  proof -
    from that have "scoreAt ?b i \<le> Fin 6"
      unfolding empties_o using scores_o by auto
    with cellScore_pure [OF that cf] show ?thesis by simp
  qed
  from m have mem: "?m \<in> set (getEmptyCells ?b)" unfolding empties_o by auto
  from m have "scoreAt ?b ?m = Fin 6" using scores_o by auto
  with cellScore_pure [OF mem cf] have "cellScore fuel ?b ?m = Some (Fin 6)" by simp
  with f m all show ?thesis
    unfolding shortcutOptimal_def by (intro exI [of _ ?m] exI [of _ "Fin 6"]) auto
qed

text \<open>
  C10. On the empty board \<open>findBestMove\<close> returns one of 0, 2, 4, 6, 8, and on a board
  whose only mark is in the centre (either mark) one of 0, 2, 6, 8; in each case the score
  the full search gives the returned cell is the greatest among the empty cells. \<open>r\<close>
  is the value Math.random() yields, \<open>fuel\<close> bounds the recursion.
\<close>

theorem opening_shortcuts:
  assumes "9 \<le> fuel" and "0 \<le> r" and "r < 1"
  shows "shortcutOptimal fuel r
           [EMPTY, EMPTY, EMPTY, EMPTY, EMPTY, EMPTY, EMPTY, EMPTY, EMPTY] {0, 2, 4, 6, 8} \<and>
         shortcutOptimal fuel r
           [EMPTY, EMPTY, EMPTY, EMPTY, PLAYER_X, EMPTY, EMPTY, EMPTY, EMPTY] {0, 2, 6, 8} \<and>
         shortcutOptimal fuel r
           [EMPTY, EMPTY, EMPTY, EMPTY, PLAYER_O, EMPTY, EMPTY, EMPTY, EMPTY] {0, 2, 6, 8}"
  using shortcut_empty [OF assms] shortcut_centre_x [OF assms] shortcut_centre_o [OF assms]
  by (intro conjI)

theorem opening_shortcuts_witness:
  "shortcutOptimal 9 (1 / 2)
     [EMPTY, EMPTY, EMPTY, EMPTY, EMPTY, EMPTY, EMPTY, EMPTY, EMPTY] {0, 2, 4, 6, 8} \<and>
   shortcutOptimal 9 (1 / 2)
     [EMPTY, EMPTY, EMPTY, EMPTY, PLAYER_X, EMPTY, EMPTY, EMPTY, EMPTY] {0, 2, 6, 8} \<and>
   shortcutOptimal 9 (1 / 2)
     [EMPTY, EMPTY, EMPTY, EMPTY, PLAYER_O, EMPTY, EMPTY, EMPTY, EMPTY] {0, 2, 6, 8}"
  using opening_shortcuts [of 9 "1 / 2"] by simp

section \<open>Pruning does not change the result\<close>

text \<open>
  What a search with the window \<open>(alpha, beta)\<close> owes the true value \<open>v\<close>: a result above
  \<open>alpha\<close> is a lower bound of \<open>v\<close>, a result below \<open>beta\<close> an upper bound.
\<close>

definition agrees :: "jsnum \<Rightarrow> jsnum \<Rightarrow> jsnum \<Rightarrow> jsnum \<Rightarrow> bool" where
  "agrees alpha beta v s = ((alpha < s \<longrightarrow> s \<le> v) \<and> (s < beta \<longrightarrow> v \<le> s))"

lemma agrees_refl: "agrees alpha beta v v"
  by (simp add: agrees_def)

lemma agrees_full: "agrees NegInf PosInf v s \<Longrightarrow> s = v"
  by (cases s; cases v) (auto simp: agrees_def less_jsnum_def)

lemma max_cut:
  fixes alpha :: jsnum
  assumes "agrees alpha beta v1 s1" "best \<le> alpha" "alpha < beta" "beta \<le> max alpha s1"
  shows "agrees alpha beta (max best (max v1 m)) (max s1 best)"
proof -
  from assms(3,4) have a: "alpha < s1" "beta \<le> s1"
    by (auto simp: max_def split: if_splits)
  with assms(1) have "s1 \<le> v1" by (simp add: agrees_def)
  moreover from a assms(2) have "max s1 best = s1" by (auto simp: max_def)
  ultimately show ?thesis
    using a by (auto simp: agrees_def le_max_iff_disj)
qed

lemma max_cont:
  fixes alpha :: jsnum
  assumes "agrees alpha beta v1 s1" "best \<le> alpha" "alpha < beta" "\<not> beta \<le> max alpha s1"
    and "agrees (max alpha s1) beta (max (max s1 best) m) s"
  shows "agrees alpha beta (max best (max v1 m)) s"
proof (cases "s1 \<le> alpha")
  case True
  with assms(3) have "s1 < beta" by simp
  with assms(1) have v: "v1 \<le> s1" by (simp add: agrees_def)
  from True have mx: "max alpha s1 = alpha" by (auto simp: max_def)
  from assms(5) [unfolded mx agrees_def]
  have a: "alpha < s \<longrightarrow> s \<le> max (max s1 best) m"
    and b: "s < beta \<longrightarrow> max (max s1 best) m \<le> s" by simp_all
  have "s \<le> max best (max v1 m)" if "alpha < s"
  proof -
    from a that have "s \<le> s1 \<or> s \<le> best \<or> s \<le> m" by (auto simp: le_max_iff_disj)
    with that True assms(2) have "s \<le> m" by auto
    then show ?thesis by (simp add: le_max_iff_disj)
  qed
  moreover have "max best (max v1 m) \<le> s" if "s < beta"
  proof -
    from b that have "s1 \<le> s" "best \<le> s" "m \<le> s" by simp_all
    with v show ?thesis by simp
  qed
  ultimately show ?thesis by (simp add: agrees_def)
next
  case False
  then have lt: "alpha < s1" by simp
  with assms(4) have sb: "s1 < beta" by (simp add: max_def split: if_splits)
  with lt assms(1) have v: "v1 = s1" by (auto simp: agrees_def)
  from lt have mx: "max alpha s1 = s1" by (auto simp: max_def)
  from lt assms(2) have mb: "max s1 best = s1" by (auto simp: max_def)
  from assms(5) [unfolded mx mb agrees_def]
  have a: "s1 < s \<longrightarrow> s \<le> max s1 m"
    and b: "s < beta \<longrightarrow> max s1 m \<le> s" by simp_all
  have "s \<le> max best (max v1 m)" if "alpha < s"
  proof (cases "s \<le> s1")
    case True
    then show ?thesis by (simp add: v le_max_iff_disj)
  next
    case False
    with a have "s \<le> max s1 m" by simp
    then show ?thesis by (auto simp: v le_max_iff_disj)
  qed
  moreover have "max best (max v1 m) \<le> s" if "s < beta"
  proof -
    from b that have "s1 \<le> s" "m \<le> s" by simp_all
    moreover from assms(2) lt \<open>s1 \<le> s\<close> have "best \<le> s" by auto
    ultimately show ?thesis by (simp add: v)
  qed
  ultimately show ?thesis by (simp add: agrees_def)
qed


lemma min_cut:
  fixes alpha :: jsnum
  assumes "agrees alpha beta v1 s1" "beta \<le> best" "alpha < beta" "min beta s1 \<le> alpha"
  shows "agrees alpha beta (min best (min v1 m)) (min s1 best)"
proof -
  from assms(3,4) have a: "s1 \<le> alpha" "s1 < beta"
    by (auto simp: min_def split: if_splits)
  with assms(1) have "v1 \<le> s1" by (simp add: agrees_def)
  moreover from a assms(2) have "min s1 best = s1" by (auto simp: min_def)
  ultimately show ?thesis
    using a by (auto simp: agrees_def min_le_iff_disj)
qed

lemma min_cont:
  fixes alpha :: jsnum
  assumes "agrees alpha beta v1 s1" "beta \<le> best" "alpha < beta" "\<not> min beta s1 \<le> alpha"
    and "agrees alpha (min beta s1) (min (min s1 best) m) s"
  shows "agrees alpha beta (min best (min v1 m)) s"
proof (cases "beta \<le> s1")
  case True
  with assms(3) have "alpha < s1" by auto
  with assms(1) have v: "s1 \<le> v1" by (simp add: agrees_def)
  from True have mn: "min beta s1 = beta" by (auto simp: min_def)
  from assms(5) [unfolded mn agrees_def]
  have a: "alpha < s \<longrightarrow> s \<le> min (min s1 best) m"
    and b: "s < beta \<longrightarrow> min (min s1 best) m \<le> s" by simp_all
  have "s \<le> min best (min v1 m)" if "alpha < s"
  proof -
    from a that have "s \<le> s1" "s \<le> best" "s \<le> m" by simp_all
    with v show ?thesis by auto
  qed
  moreover have "min best (min v1 m) \<le> s" if "s < beta"
  proof -
    from b that have "s1 \<le> s \<or> best \<le> s \<or> m \<le> s" by (auto simp: min_le_iff_disj)
    with that True assms(2) have "m \<le> s" by auto
    then show ?thesis by (simp add: min_le_iff_disj)
  qed
  ultimately show ?thesis by (simp add: agrees_def)
next
  case False
  then have lt: "s1 < beta" by simp
  with assms(4) have sa: "alpha < s1" by (auto simp: min_def split: if_splits)
  with lt assms(1) have v: "v1 = s1" by (auto simp: agrees_def)
  from lt have mn: "min beta s1 = s1" by (auto simp: min_def)
  from lt assms(2) have mb: "min s1 best = s1" by (auto simp: min_def)
  from assms(5) [unfolded mn mb agrees_def]
  have a: "alpha < s \<longrightarrow> s \<le> min s1 m"
    and b: "s < s1 \<longrightarrow> min s1 m \<le> s" by simp_all
  have "s \<le> min best (min v1 m)" if "alpha < s"
  proof -
    from a that have "s \<le> s1" "s \<le> m" by simp_all
    moreover from assms(2) lt \<open>s \<le> s1\<close> have "s \<le> best" by auto
    ultimately show ?thesis by (simp add: v)
  qed
  moreover have "min best (min v1 m) \<le> s" if "s < beta"
  proof (cases "s1 \<le> s")
    case True
    then show ?thesis by (simp add: v min_le_iff_disj)
  next
    case False
    with b have "min s1 m \<le> s" by simp
    then show ?thesis by (auto simp: v min_le_iff_disj)
  qed
  ultimately show ?thesis by (simp add: agrees_def)
qed

text \<open>The greatest and the least of a list of scores, starting from the two infinities.\<close>

definition maxOf :: "jsnum list \<Rightarrow> jsnum" where
  "maxOf xs = foldr max xs NegInf"

definition minOf :: "jsnum list \<Rightarrow> jsnum" where
  "minOf xs = foldr min xs PosInf"

text \<open>
  The full search without pruning, in the words of the specification: a won position
  scores 10 minus the depth, a lost one minus 10 plus the depth, a full board 0; any other
  position scores the greatest score of its successors when the engine is to move and the
  least when the opponent is.
\<close>

function fullMinimax :: "board \<Rightarrow> int \<Rightarrow> bool \<Rightarrow> jsnum" where
  "fullMinimax brd depth isMaximizing =
     (if checkWinner brd = Some PLAYER_O then Fin (SCORE_WIN - depth)
      else if checkWinner brd = Some PLAYER_X then Fin (SCORE_LOSE + depth)
      else if isBoardFull brd then Fin SCORE_DRAW
      else if isMaximizing
      then maxOf (map (\<lambda>i. fullMinimax (brd[i := PLAYER_O]) (depth + 1) False) (getEmptyCells brd))
      else minOf (map (\<lambda>i. fullMinimax (brd[i := PLAYER_X]) (depth + 1) True) (getEmptyCells brd)))"
  by pat_completeness auto
termination
proof (relation "measure (\<lambda>(brd, depth, isMaximizing). count_list brd EMPTY)")
  fix brd :: board and i :: nat
  assume "i \<in> set (getEmptyCells brd)"
  then have i: "i < length brd" "brd ! i = EMPTY" by (simp_all add: set_getEmptyCells)
  from count_EMPTY_update [OF i, of PLAYER_O] count_EMPTY_update [OF i, of PLAYER_X]
  show "((brd[i := PLAYER_O], depth + 1, False), brd, depth, isMaximizing)
          \<in> measure (\<lambda>(brd, depth, isMaximizing). count_list brd EMPTY)"
    and "((brd[i := PLAYER_X], depth + 1, True), brd, depth, isMaximizing)
          \<in> measure (\<lambda>(brd, depth, isMaximizing). count_list brd EMPTY)"
    for depth isMaximizing
    by simp_all
qed simp

declare fullMinimax.simps [simp del]

text \<open>The engine with the unpruned search in the place of \<open>minimax\<close>.\<close>

fun fullRootLoop :: "nat list \<Rightarrow> board \<Rightarrow> jsnum \<Rightarrow> nat option \<Rightarrow> nat option" where
  "fullRootLoop [] brd bestScore bestMove = bestMove"
| "fullRootLoop (index # rest) brd bestScore bestMove =
     (let score = fullMinimax (brd[index := PLAYER_O]) 0 False
      in if score > bestScore then fullRootLoop rest brd score (Some index)
         else fullRootLoop rest brd bestScore bestMove)"

definition findBestMoveFull :: "rat \<Rightarrow> board \<Rightarrow> nat option" where
  "findBestMoveFull r brd =
     (let emptyCells = getEmptyCells brd
      in if length emptyCells = 0 then None
         else if length emptyCells = 9 then Some ([0, 2, 4, 6, 8] ! randomIndex r 5)
         else if length emptyCells = 8 \<and> cellAt brd 4 \<noteq> EMPTY
         then Some ([0, 2, 6, 8] ! randomIndex r 4)
         else fullRootLoop emptyCells brd NegInf None)"


lemma NegInf_least [simp]: "NegInf \<le> x" and PosInf_greatest [simp]: "x \<le> PosInf"
  by (cases x; simp)+

lemma update_undo: "brd ! i = EMPTY \<Longrightarrow> brd[i := EMPTY] = brd"
  using list_update_id [of brd i] by simp

lemma maxOf_Cons: "maxOf (x # xs) = max x (maxOf xs)"
  by (simp add: maxOf_def)

lemma minOf_Cons: "minOf (x # xs) = min x (minOf xs)"
  by (simp add: minOf_def)

lemma maxLoop_agrees:
  assumes rec: "\<And>b d a bt. count_list b EMPTY < n \<Longrightarrow> a < bt \<Longrightarrow>
      \<exists>s. rec b d False a bt = Some (s, b) \<and> agrees a bt (fullMinimax b d False) s"
  shows "(\<forall>i\<in>set cells. i < length brd \<and> brd ! i = EMPTY) \<Longrightarrow> count_list brd EMPTY \<le> n \<Longrightarrow>
     best \<le> alpha \<Longrightarrow> alpha < beta \<Longrightarrow>
     \<exists>s. maxLoop rec cells brd depth alpha beta best = Some (s, brd) \<and>
         agrees alpha beta
           (max best (maxOf (map (\<lambda>i. fullMinimax (brd[i := PLAYER_O]) (depth + 1) False) cells))) s"
proof (induction cells arbitrary: alpha best)
  case Nil
  then show ?case by (simp add: maxOf_def max.absorb1 agrees_refl)
next
  case (Cons i cells)
  let ?f = "\<lambda>i. fullMinimax (brd[i := PLAYER_O]) (depth + 1) False"
  let ?child = "brd[i := PLAYER_O]"
  from Cons.prems(1) have i: "i < length brd" "brd ! i = EMPTY" by simp_all
  from count_EMPTY_update [OF i, of PLAYER_O] Cons.prems(2)
  have "count_list ?child EMPTY < n" by simp
  from rec [OF this Cons.prems(4), of "depth + 1"]
  obtain s1 where s1: "rec ?child (depth + 1) False alpha beta = Some (s1, ?child)"
    and a1: "agrees alpha beta (?f i) s1" by blast
  have undo: "brd[i := EMPTY] = brd" by (rule update_undo [OF i(2)])
  note mo = maxOf_Cons
  show ?case
  proof (cases "beta \<le> max alpha s1")
    case True
    from max_cut [OF a1 Cons.prems(3,4) True, of "maxOf (map ?f cells)"] True
    show ?thesis by (simp add: s1 undo Let_def mo)
  next
    case False
    then have lt: "max alpha s1 < beta" by (rule not_le_imp_less)
    from Cons.prems(3) have le: "max s1 best \<le> max alpha s1" by (auto simp: max_def)
    from Cons.prems(1) have rest: "\<forall>i\<in>set cells. i < length brd \<and> brd ! i = EMPTY" by simp
    from Cons.IH [OF rest Cons.prems(2) le lt]
    obtain s where s: "maxLoop rec cells brd depth (max alpha s1) beta (max s1 best) = Some (s, brd)"
      and a: "agrees (max alpha s1) beta (max (max s1 best) (maxOf (map ?f cells))) s" by blast
    from max_cont [OF a1 Cons.prems(3,4) False a] False
    show ?thesis by (simp add: s1 undo Let_def mo s)
  qed
qed

lemma minLoop_agrees:
  assumes rec: "\<And>b d a bt. count_list b EMPTY < n \<Longrightarrow> a < bt \<Longrightarrow>
      \<exists>s. rec b d True a bt = Some (s, b) \<and> agrees a bt (fullMinimax b d True) s"
  shows "(\<forall>i\<in>set cells. i < length brd \<and> brd ! i = EMPTY) \<Longrightarrow> count_list brd EMPTY \<le> n \<Longrightarrow>
     beta \<le> best \<Longrightarrow> alpha < beta \<Longrightarrow>
     \<exists>s. minLoop rec cells brd depth alpha beta best = Some (s, brd) \<and>
         agrees alpha beta
           (min best (minOf (map (\<lambda>i. fullMinimax (brd[i := PLAYER_X]) (depth + 1) True) cells))) s"
proof (induction cells arbitrary: beta best)
  case Nil
  then show ?case by (simp add: minOf_def min.absorb1 agrees_refl)
next
  case (Cons i cells)
  let ?f = "\<lambda>i. fullMinimax (brd[i := PLAYER_X]) (depth + 1) True"
  let ?child = "brd[i := PLAYER_X]"
  from Cons.prems(1) have i: "i < length brd" "brd ! i = EMPTY" by simp_all
  from count_EMPTY_update [OF i, of PLAYER_X] Cons.prems(2)
  have "count_list ?child EMPTY < n" by simp
  from rec [OF this Cons.prems(4), of "depth + 1"]
  obtain s1 where s1: "rec ?child (depth + 1) True alpha beta = Some (s1, ?child)"
    and a1: "agrees alpha beta (?f i) s1" by blast
  have undo: "brd[i := EMPTY] = brd" by (rule update_undo [OF i(2)])
  note mo = minOf_Cons
  show ?case
  proof (cases "min beta s1 \<le> alpha")
    case True
    from min_cut [OF a1 Cons.prems(3,4) True, of "minOf (map ?f cells)"] True
    show ?thesis by (simp add: s1 undo Let_def mo)
  next
    case False
    then have lt: "alpha < min beta s1" by (rule not_le_imp_less)
    from Cons.prems(3) have le: "min beta s1 \<le> min s1 best" by (auto simp: min_def)
    from Cons.prems(1) have rest: "\<forall>i\<in>set cells. i < length brd \<and> brd ! i = EMPTY" by simp
    from Cons.IH [OF rest Cons.prems(2) le lt]
    obtain s where s: "minLoop rec cells brd depth alpha (min beta s1) (min s1 best) = Some (s, brd)"
      and a: "agrees alpha (min beta s1) (min (min s1 best) (minOf (map ?f cells))) s" by blast
    from min_cont [OF a1 Cons.prems(3,4) False a] False
    show ?thesis by (simp add: s1 undo Let_def mo s)
  qed
qed

lemma minimax_agrees:
  "count_list brd EMPTY < fuel \<Longrightarrow> alpha < beta \<Longrightarrow>
     \<exists>s. minimax fuel brd depth isMaximizing alpha beta = Some (s, brd) \<and>
         agrees alpha beta (fullMinimax brd depth isMaximizing) s"
proof (induction fuel arbitrary: brd depth isMaximizing alpha beta)
  case 0
  then show ?case by simp
next
  case (Suc fuel)
  have cells: "\<forall>i\<in>set (getEmptyCells brd). i < length brd \<and> brd ! i = EMPTY"
    by (simp add: set_getEmptyCells)
  from Suc.prems(1) have le: "count_list brd EMPTY \<le> fuel" by simp
  from maxLoop_agrees [of fuel "minimax fuel", OF Suc.IH cells le _ Suc.prems(2), of NegInf depth]
  have mx: "\<exists>s. maxLoop (minimax fuel) (getEmptyCells brd) brd depth alpha beta NegInf = Some (s, brd) \<and>
      agrees alpha beta
        (maxOf (map (\<lambda>i. fullMinimax (brd[i := PLAYER_O]) (depth + 1) False) (getEmptyCells brd))) s"
    by (simp add: max.absorb2)
  from minLoop_agrees [of fuel "minimax fuel", OF Suc.IH cells le _ Suc.prems(2), of PosInf depth]
  have mn: "\<exists>s. minLoop (minimax fuel) (getEmptyCells brd) brd depth alpha beta PosInf = Some (s, brd) \<and>
      agrees alpha beta
        (minOf (map (\<lambda>i. fullMinimax (brd[i := PLAYER_X]) (depth + 1) True) (getEmptyCells brd))) s"
    by (simp add: min.absorb2)
  show ?case
    using mx mn by (simp add: fullMinimax.simps [of brd] Let_def agrees_refl)
qed

lemma minimax_full_window:
  "count_list brd EMPTY < fuel \<Longrightarrow>
     minimax fuel brd depth isMaximizing NegInf PosInf =
       Some (fullMinimax brd depth isMaximizing, brd)"
  using minimax_agrees [of brd fuel NegInf PosInf depth isMaximizing] agrees_full by auto

lemma rootLoop_full:
  "(\<forall>i\<in>set cells. i < length brd \<and> brd ! i = EMPTY) \<Longrightarrow> count_list brd EMPTY \<le> fuel \<Longrightarrow>
     rootLoop fuel cells brd bestScore bestMove =
       Some (fullRootLoop cells brd bestScore bestMove, brd)"
proof (induction cells arbitrary: bestScore bestMove)
  case Nil
  then show ?case by simp
next
  case (Cons i cells)
  from Cons.prems(1) have i: "i < length brd" "brd ! i = EMPTY" by simp_all
  from count_EMPTY_update [OF i, of PLAYER_O] Cons.prems(2)
  have "count_list (brd[i := PLAYER_O]) EMPTY < fuel" by simp
  then have m: "minimax fuel (brd[i := PLAYER_O]) 0 False NegInf PosInf =
      Some (fullMinimax (brd[i := PLAYER_O]) 0 False, brd[i := PLAYER_O])"
    by (rule minimax_full_window)
  from Cons.prems(1) have rest: "\<forall>i\<in>set cells. i < length brd \<and> brd ! i = EMPTY" by simp
  show ?case
    by (simp add: m update_undo [OF i(2)] Let_def Cons.IH [OF rest Cons.prems(2)])
qed

text \<open>
  C6. Given fuel for the empty cells of the board, \<open>findBestMove\<close> with the pruned search
  returns the move that the same engine returns with the unpruned search, ties between
  root moves included; and called with the full window, \<open>minimax\<close> returns the exact
  value of the unpruned search.
\<close>

theorem pruning_preserves_choice:
  assumes "ref < length st" and "count_list (st ! ref) EMPTY \<le> fuel"
  shows "map_option fst (findBestMove fuel r st ref) = Some (findBestMoveFull r (st ! ref)) \<and>
         (\<forall>brd depth isMaximizing. count_list brd EMPTY < fuel \<longrightarrow>
            minimax fuel brd depth isMaximizing NegInf PosInf =
              Some (fullMinimax brd depth isMaximizing, brd))"
proof -
  have cells: "\<forall>i\<in>set (getEmptyCells (st ! ref)). i < length (st ! ref) \<and> st ! ref ! i = EMPTY"
    by (simp add: set_getEmptyCells)
  have "map_option fst (findBestMove fuel r st ref) = Some (findBestMoveFull r (st ! ref))"
    using assms(1)
    by (simp add: findBestMove_def findBestMoveFull_def Let_def nth_append
        rootLoop_full [OF cells assms(2)])
  then show ?thesis by (simp add: minimax_full_window)
qed

theorem pruning_preserves_choice_witness:
  "map_option fst (findBestMove 9 0
       [[PLAYER_X, PLAYER_X, EMPTY, PLAYER_O, EMPTY, EMPTY, EMPTY, EMPTY, EMPTY]] 0) =
     Some (findBestMoveFull 0
       ([[PLAYER_X, PLAYER_X, EMPTY, PLAYER_O, EMPTY, EMPTY, EMPTY, EMPTY, EMPTY]] ! 0)) \<and>
   minimax 9 [PLAYER_X, PLAYER_X, PLAYER_O, PLAYER_O, EMPTY, EMPTY, EMPTY, EMPTY, EMPTY]
       0 False NegInf PosInf =
     Some (fullMinimax [PLAYER_X, PLAYER_X, PLAYER_O, PLAYER_O, EMPTY, EMPTY, EMPTY, EMPTY, EMPTY]
       0 False,
       [PLAYER_X, PLAYER_X, PLAYER_O, PLAYER_O, EMPTY, EMPTY, EMPTY, EMPTY, EMPTY])"
  using pruning_preserves_choice
    [of 0 "[[PLAYER_X, PLAYER_X, EMPTY, PLAYER_O, EMPTY, EMPTY, EMPTY, EMPTY, EMPTY]]" 9 0]
  by simp

section \<open>Games against the optimal engine\<close>

text \<open>
  \<open>handleCellClick\<close> of the driver: a click is ignored unless it is the human's turn and the
  move is valid.
\<close>

definition handleCellClick :: "state \<Rightarrow> int \<Rightarrow> state" where
  "handleCellClick st index =
     (if \<not> isPlayerTurn st then st
      else if isValidMove st index then fst (snd (makeMove st index))
      else st)"

text \<open>
  What happens in a game: the human clicks a cell, or the AI moves, \<open>Math.random()\<close>
  yielding the given number. The AI moves only when it is its turn.
\<close>

datatype event = Click int | AIMove rat

fun play :: "nat \<Rightarrow> string \<Rightarrow> state \<Rightarrow> event list \<Rightarrow> state option" where
  "play fuel difficulty st [] = Some st"
| "play fuel difficulty st (Click i # es) = play fuel difficulty (handleCellClick st i) es"
| "play fuel difficulty st (AIMove r # es) =
     (if isAITurn st
      then case triggerAIMove fuel r difficulty st of
             None \<Rightarrow> None
           | Some st' \<Rightarrow> play fuel difficulty st' es
      else play fuel difficulty st es)"

fun validEvent :: "event \<Rightarrow> bool" where
  "validEvent (Click i) = True"
| "validEvent (AIMove r) = (0 \<le> r \<and> r < 1)"

text \<open>The moves \<open>findBestMove\<close> can return on a board, over all values of \<open>Math.random()\<close>.\<close>

definition aiMoves :: "board \<Rightarrow> nat list" where
  "aiMoves brd =
     (if count_list brd EMPTY = 0 then []
      else if count_list brd EMPTY = 9 then [0, 2, 4, 6, 8]
      else if count_list brd EMPTY = 8 \<and> cellAt brd 4 \<noteq> EMPTY then [0, 2, 6, 8]
      else (case rootScan [] brd 0 NegInf None of None \<Rightarrow> [] | Some m \<Rightarrow> [m]))"

text \<open>
  \<open>safe n hu ai turn brd\<close>: from the board \<open>brd\<close> with \<open>turn\<close> to move, in at most \<open>n\<close> further
  moves, no game in which the AI (holding \<open>ai\<close>) plays a move of \<open>aiMoves\<close> and the human
  (holding \<open>hu\<close>) plays any empty cell ends with a line of \<open>hu\<close>.
\<close>

fun safe :: "nat \<Rightarrow> cell \<Rightarrow> cell \<Rightarrow> cell \<Rightarrow> board \<Rightarrow> bool"
  and safeAfter :: "nat \<Rightarrow> cell \<Rightarrow> cell \<Rightarrow> cell \<Rightarrow> board \<Rightarrow> bool" where
  "safe 0 hu ai turn brd = False"
| "safe (Suc n) hu ai turn brd =
     list_all (\<lambda>m. safeAfter n hu ai turn (brd[m := turn]))
       (if turn = ai then aiMoves brd else emptiesFrom 0 brd)"
| "safeAfter n hu ai turn brd =
     (case winnerOf brd of
        Some w \<Rightarrow> w \<noteq> hu
      | None \<Rightarrow> if noEmpty brd then True else safe n hu ai (other turn) brd)"

lemma other_simps [simp]: "other PLAYER_X = PLAYER_O" "other PLAYER_O = PLAYER_X"
  by (simp_all add: other_def)

lemma combos_same: "AI_WINNING_COMBINATIONS = WINNING_COMBINATIONS"
  by (simp add: AI_WINNING_COMBINATIONS_def WINNING_COMBINATIONS_def)

lemma checkGameEnd_via:
  "ended (checkGameEnd brd) = (checkWinner brd \<noteq> None \<or> isBoardFull brd)"
  "resWinner (checkGameEnd brd) =
     (case checkWinner brd of Some w \<Rightarrow> Some (Mark w)
      | None \<Rightarrow> if isBoardFull brd then Some Draw else None)"
  by (simp_all add: checkGameEnd_def checkWinner_def combos_same isBoardFull_def
      split: option.splits)

lemma makeMove_fields:
  assumes "isValidMove st i"
  defines "b \<equiv> (board st)[nat i := currentPlayer st]"
  defines "st' \<equiv> fst (snd (makeMove st i))"
  shows "board st' = b" "playerSymbol st' = playerSymbol st" "aiSymbol st' = aiSymbol st"
    and "gameOver st' = (checkWinner b \<noteq> None \<or> isBoardFull b)"
    and "winner st' = (case checkWinner b of Some w \<Rightarrow> Some (Mark w)
           | None \<Rightarrow> if isBoardFull b then Some Draw else winner st)"
    and "currentPlayer st' = (if gameOver st' then currentPlayer st else other (currentPlayer st))"
proof -
  from assms(1) have go: "\<not> gameOver st" by (simp add: isValidMove_def)
  show "board st' = b" "playerSymbol st' = playerSymbol st" "aiSymbol st' = aiSymbol st"
    and "gameOver st' = (checkWinner b \<noteq> None \<or> isBoardFull b)"
    and "winner st' = (case checkWinner b of Some w \<Rightarrow> Some (Mark w)
           | None \<Rightarrow> if isBoardFull b then Some Draw else winner st)"
    and "currentPlayer st' = (if gameOver st' then currentPlayer st else other (currentPlayer st))"
    using assms(1) go unfolding b_def st'_def
    by (auto simp: makeMove_def Let_def checkGameEnd_via other_def split: option.splits)
qed

text \<open>
  The invariant of a game against the optimal engine: the board has nine cells, the two
  sides hold different marks, a finished game was not won by the human, and an unfinished
  one is safe for the AI.
\<close>

definition gameInv :: "state \<Rightarrow> bool" where
  "gameInv st =
     (length (board st) = 9 \<and>
      (playerSymbol st = PLAYER_X \<or> playerSymbol st = PLAYER_O) \<and>
      aiSymbol st = other (playerSymbol st) \<and>
      (if gameOver st then winner st \<noteq> Some (Mark (playerSymbol st))
       else winner st = None \<and>
            (\<exists>n. safe n (playerSymbol st) (aiSymbol st) (currentPlayer st) (board st))))"

lemma gameInv_move:
  assumes inv: "gameInv st" and go: "\<not> gameOver st" and v: "isValidMove st (int m)"
    and m: "m \<in> set (if currentPlayer st = aiSymbol st then aiMoves (board st)
                      else emptiesFrom 0 (board st))"
  shows "gameInv (fst (snd (makeMove st (int m))))"
proof -
  let ?hu = "playerSymbol st" and ?ai = "aiSymbol st" and ?t = "currentPlayer st"
  let ?b = "(board st)[m := ?t]"
  let ?st' = "fst (snd (makeMove st (int m)))"
  note f = makeMove_fields [OF v, simplified]
  from inv go obtain n where n: "safe n ?hu ?ai ?t (board st)" and w: "winner st = None"
    by (auto simp: gameInv_def)
  from n obtain k where k: "n = Suc k" by (cases n) simp_all
  from n m have sa: "safeAfter k ?hu ?ai ?t ?b"
    unfolding k by (simp add: list_all_iff)
  from inv have base: "length (board ?st') = 9"
    "playerSymbol ?st' = PLAYER_X \<or> playerSymbol ?st' = PLAYER_O"
    "aiSymbol ?st' = other (playerSymbol ?st')"
    by (simp_all add: f gameInv_def)
  show ?thesis
  proof (cases "checkWinner ?b")
    case (Some c)
    with sa have "c \<noteq> ?hu" by (simp add: winnerOf_eq)
    with Some base show ?thesis by (simp add: gameInv_def f)
  next
    case None
    show ?thesis
    proof (cases "isBoardFull ?b")
      case True
      with None base show ?thesis by (simp add: gameInv_def f)
    next
      case False
      with None sa have "safe k ?hu ?ai (other ?t) ?b"
        by (simp add: winnerOf_eq noEmpty_eq)
      with None False base w show ?thesis
        by (auto simp: gameInv_def f)
    qed
  qed
qed

lemma gameInv_click:
  assumes "gameInv st"
  shows "gameInv (handleCellClick st i)"
proof (cases "isPlayerTurn st \<and> isValidMove st i")
  case False
  with assms show ?thesis by (auto simp: handleCellClick_def)
next
  case True
  then have t: "currentPlayer st = playerSymbol st" and go: "\<not> gameOver st"
    and v: "isValidMove st i"
    by (simp_all add: isPlayerTurn_def)
  from v have i: "0 \<le> i" "nat i < length (board st)" "board st ! nat i = EMPTY"
    by (auto simp: isValidMove_def cellAt_nth split: if_splits)
  from assms t have "currentPlayer st \<noteq> aiSymbol st"
    by (auto simp: gameInv_def)
  moreover from i have "nat i \<in> set (emptiesFrom 0 (board st))"
    using set_getEmptyCells [of "board st"] by (simp add: getEmptyCells_emptiesFrom)
  ultimately have "gameInv (fst (snd (makeMove st (int (nat i)))))"
    using gameInv_move [OF assms go, of "nat i"] v i(1) by simp
  with True i(1) show ?thesis by (simp add: handleCellClick_def)
qed

lemma bestMoveOf_in_aiMoves:
  assumes "0 \<le> r" "r < 1" "bestMoveOf r brd = Some m"
  shows "m \<in> set (aiMoves brd)"
proof -
  have "randomIndex r 5 < 5" "randomIndex r 4 < 4"
    by (rule randomIndex_less [OF assms(1,2)], simp)+
  then have "[0, 2, 4, 6, 8] ! randomIndex r 5 \<in> set [0, 2, 4, 6, 8 :: nat]"
    "[0, 2, 6, 8] ! randomIndex r 4 \<in> set [0, 2, 6, 8 :: nat]"
    by (intro nth_mem, simp)+
  with assms(3) show ?thesis
    by (auto simp: bestMoveOf_def aiMoves_def split: if_splits simp del: rootScan.simps)
qed

lemma gameInv_ai:
  assumes inv: "gameInv st" and t: "isAITurn st" and r: "0 \<le> r" "r < 1"
    and fuel: "9 \<le> fuel" and d: "difficulty \<noteq> ''easy''"
  shows "\<exists>st'. triggerAIMove fuel r difficulty st = Some st' \<and> gameInv st'"
proof -
  from inv have len: "length (board st) = 9" by (simp add: gameInv_def)
  from t have go: "\<not> gameOver st" and turn: "currentPlayer st = aiSymbol st"
    by (simp_all add: isAITurn_def)
  have "count_list (board st) EMPTY \<le> length (board st)" by (rule count_le_length)
  with len fuel have c: "count_list ([board st] ! 0) EMPTY \<le> fuel" by simp
  from findBestMove_pure [OF _ c, of r] d
  have g: "getMoveWithDifficultyAndDelay fuel r [board st] 0 AI_DELAY difficulty =
      Some (bestMoveOf r (board st), [board st, board st])"
    by (simp add: getMoveWithDifficultyAndDelay_def)
  show ?thesis
  proof (cases "bestMoveOf r (board st)")
    case None
    with g inv show ?thesis by (simp add: triggerAIMove_def)
  next
    case (Some m)
    from bestMoveOf_legal [OF len r] Some have e: "emptyAt (board st) m" by simp
    with len go have v: "isValidMove st (int m)"
      by (simp add: isValidMove_def emptyAt_def cellAt_nth)
    from bestMoveOf_in_aiMoves [OF r Some] turn
    have "m \<in> set (if currentPlayer st = aiSymbol st then aiMoves (board st)
                      else emptiesFrom 0 (board st))" by simp
    from gameInv_move [OF inv go v this] g Some show ?thesis
      by (simp add: triggerAIMove_def)
  qed
qed

lemma gameInv_play:
  assumes "9 \<le> fuel" "difficulty \<noteq> ''easy''"
  shows "gameInv st \<Longrightarrow> list_all validEvent es \<Longrightarrow>
     \<exists>st'. play fuel difficulty st es = Some st' \<and> gameInv st'"
proof (induction es arbitrary: st)
  case Nil
  then show ?case by simp
next
  case (Cons e es)
  show ?case
  proof (cases e)
    case (Click i)
    with Cons.IH [OF gameInv_click [OF Cons.prems(1), of i]] Cons.prems(2)
    show ?thesis by simp
  next
    case (AIMove r)
    with Cons.prems(2) have r: "0 \<le> r" "r < 1" and rest: "list_all validEvent es" by simp_all
    show ?thesis
    proof (cases "isAITurn st")
      case False
      with Cons.IH [OF Cons.prems(1) rest] AIMove show ?thesis by simp
    next
      case True
      from gameInv_ai [OF Cons.prems(1) True r assms]
      obtain st1 where st1: "triggerAIMove fuel r difficulty st = Some st1" "gameInv st1" by blast
      with Cons.IH [OF st1(2) rest] AIMove True show ?thesis by simp
    qed
  qed
qed

text \<open>The check, run once for every first move of the human and of the AI.\<close>

lemma safe_O_0:
  "safe 9 PLAYER_X PLAYER_O PLAYER_O [PLAYER_X, EMPTY, EMPTY, EMPTY, EMPTY, EMPTY, EMPTY, EMPTY, EMPTY]"
  by code_simp

lemma safe_O_1:
  "safe 9 PLAYER_X PLAYER_O PLAYER_O [EMPTY, PLAYER_X, EMPTY, EMPTY, EMPTY, EMPTY, EMPTY, EMPTY, EMPTY]"
  by code_simp

lemma safe_O_2:
  "safe 9 PLAYER_X PLAYER_O PLAYER_O [EMPTY, EMPTY, PLAYER_X, EMPTY, EMPTY, EMPTY, EMPTY, EMPTY, EMPTY]"
  by code_simp

lemma safe_O_3:
  "safe 9 PLAYER_X PLAYER_O PLAYER_O [EMPTY, EMPTY, EMPTY, PLAYER_X, EMPTY, EMPTY, EMPTY, EMPTY, EMPTY]"
  by code_simp

lemma safe_O_4:
  "safe 9 PLAYER_X PLAYER_O PLAYER_O [EMPTY, EMPTY, EMPTY, EMPTY, PLAYER_X, EMPTY, EMPTY, EMPTY, EMPTY]"
  by code_simp

lemma safe_O_5:
  "safe 9 PLAYER_X PLAYER_O PLAYER_O [EMPTY, EMPTY, EMPTY, EMPTY, EMPTY, PLAYER_X, EMPTY, EMPTY, EMPTY]"
  by code_simp

lemma safe_O_6:
  "safe 9 PLAYER_X PLAYER_O PLAYER_O [EMPTY, EMPTY, EMPTY, EMPTY, EMPTY, EMPTY, PLAYER_X, EMPTY, EMPTY]"
  by code_simp

lemma safe_O_7:
  "safe 9 PLAYER_X PLAYER_O PLAYER_O [EMPTY, EMPTY, EMPTY, EMPTY, EMPTY, EMPTY, EMPTY, PLAYER_X, EMPTY]"
  by code_simp

lemma safe_O_8:
  "safe 9 PLAYER_X PLAYER_O PLAYER_O [EMPTY, EMPTY, EMPTY, EMPTY, EMPTY, EMPTY, EMPTY, EMPTY, PLAYER_X]"
  by code_simp

lemma safe_X_0:
  "safe 9 PLAYER_O PLAYER_X PLAYER_O [PLAYER_X, EMPTY, EMPTY, EMPTY, EMPTY, EMPTY, EMPTY, EMPTY, EMPTY]"
  by code_simp

lemma safe_X_2:
  "safe 9 PLAYER_O PLAYER_X PLAYER_O [EMPTY, EMPTY, PLAYER_X, EMPTY, EMPTY, EMPTY, EMPTY, EMPTY, EMPTY]"
  by code_simp

lemma safe_X_4:
  "safe 9 PLAYER_O PLAYER_X PLAYER_O [EMPTY, EMPTY, EMPTY, EMPTY, PLAYER_X, EMPTY, EMPTY, EMPTY, EMPTY]"
  by code_simp

lemma safe_X_6:
  "safe 9 PLAYER_O PLAYER_X PLAYER_O [EMPTY, EMPTY, EMPTY, EMPTY, EMPTY, EMPTY, PLAYER_X, EMPTY, EMPTY]"
  by code_simp

lemma safe_X_8:
  "safe 9 PLAYER_O PLAYER_X PLAYER_O [EMPTY, EMPTY, EMPTY, EMPTY, EMPTY, EMPTY, EMPTY, EMPTY, PLAYER_X]"
  by code_simp

lemma safe_human_first:
  "safe (Suc 9) PLAYER_X PLAYER_O PLAYER_X
     [EMPTY, EMPTY, EMPTY, EMPTY, EMPTY, EMPTY, EMPTY, EMPTY, EMPTY]"
  by (subst safe.simps) (simp add: safe_O_0 safe_O_1 safe_O_2 safe_O_3 safe_O_4 safe_O_5 safe_O_6 safe_O_7 safe_O_8)

lemma safe_ai_first:
  "safe (Suc 9) PLAYER_O PLAYER_X PLAYER_X
     [EMPTY, EMPTY, EMPTY, EMPTY, EMPTY, EMPTY, EMPTY, EMPTY, EMPTY]"
  by (subst safe.simps) (simp add: aiMoves_def safe_X_0 safe_X_2 safe_X_4 safe_X_6 safe_X_8)

lemma gameInv_init: "gameInv (init s)"
proof -
  have e: "replicate 9 EMPTY = [EMPTY, EMPTY, EMPTY, EMPTY, EMPTY, EMPTY, EMPTY, EMPTY, EMPTY]"
    by (simp add: numeral_eq_Suc)
  show ?thesis
    using safe_human_first safe_ai_first
    unfolding gameInv_def init_def createInitialState_def Let_def e
    by (auto simp del: safe.simps)
qed

text \<open>
  Games that start with \<open>init\<close>, for either symbol of the human, in which the human
  clicks cells and the AI makes every move of its side with the optimal strategy (any
  difficulty but \<open>'easy'\<close>), whatever \<open>Math.random()\<close> yields: every such sequence of
  events leads to a state (given fuel for nine levels of recursion), and no state so
  reached is won by the human. This covers only the positions that arise when the engine
  has played all the earlier moves of its side; the theorem after it shows a position
  outside them.
\<close>

lemma games_from_init_not_lost:
  assumes "9 \<le> fuel" and "difficulty \<noteq> ''easy''" and "list_all validEvent es"
  shows "\<exists>st. play fuel difficulty (init s) es = Some st \<and>
           winner st \<noteq> Some (Mark (playerSymbol st))"
proof -
  from gameInv_play [OF assms(1,2) gameInv_init assms(3)]
  obtain st where st: "play fuel difficulty (init s) es = Some st" "gameInv st" by blast
  from st(2) have "winner st \<noteq> Some (Mark (playerSymbol st))"
    by (auto simp: gameInv_def split: if_splits)
  with st(1) show ?thesis by blast
qed

lemma lost_start:
  "run (init ''O'') [0, 1, 2, 6, 5, 7] =
     \<lparr>board = [PLAYER_X, PLAYER_O, PLAYER_X, EMPTY, EMPTY, PLAYER_X, PLAYER_O, PLAYER_O, EMPTY],
      currentPlayer = PLAYER_X, gameOver = False, winner = None, winningLine = None,
      playerSymbol = PLAYER_O, aiSymbol = PLAYER_X\<rparr>"
  by code_simp

lemma lost_choice:
  "bestMoveOf r [PLAYER_X, PLAYER_O, PLAYER_X, EMPTY, EMPTY, PLAYER_X, PLAYER_O, PLAYER_O, EMPTY] = Some 4"
proof -
  have "rootScan [] [PLAYER_X, PLAYER_O, PLAYER_X, EMPTY, EMPTY, PLAYER_X, PLAYER_O, PLAYER_O, EMPTY]
      0 NegInf None = Some 4"
    by code_simp
  then show ?thesis by (simp add: bestMoveOf_def del: rootScan.simps)
qed

lemma lost_scores:
  "cellScore 9 [PLAYER_X, PLAYER_O, PLAYER_X, EMPTY, EMPTY, PLAYER_X, PLAYER_O, PLAYER_O, EMPTY] 3 = Some (Fin (- 9))"
  "cellScore 9 [PLAYER_X, PLAYER_O, PLAYER_X, EMPTY, EMPTY, PLAYER_X, PLAYER_O, PLAYER_O, EMPTY] 4 = Some (Fin 10)"
  "cellScore 9 [PLAYER_X, PLAYER_O, PLAYER_X, EMPTY, EMPTY, PLAYER_X, PLAYER_O, PLAYER_O, EMPTY] 8 = Some (Fin 10)"
  by code_simp+

lemma lost_ai_move:
  "makeMove
     \<lparr>board = [PLAYER_X, PLAYER_O, PLAYER_X, EMPTY, EMPTY, PLAYER_X, PLAYER_O, PLAYER_O, EMPTY],
      currentPlayer = PLAYER_X, gameOver = False, winner = None, winningLine = None,
      playerSymbol = PLAYER_O, aiSymbol = PLAYER_X\<rparr> 4 =
   (True,
    \<lparr>board = [PLAYER_X, PLAYER_O, PLAYER_X, EMPTY, PLAYER_X, PLAYER_X, PLAYER_O, PLAYER_O, EMPTY],
      currentPlayer = PLAYER_O, gameOver = False, winner = None, winningLine = None,
      playerSymbol = PLAYER_O, aiSymbol = PLAYER_X\<rparr>,
    [StateChange
      \<lparr>board = [PLAYER_X, PLAYER_O, PLAYER_X, EMPTY, PLAYER_X, PLAYER_X, PLAYER_O, PLAYER_O, EMPTY],
       currentPlayer = PLAYER_O, gameOver = False, winner = None, winningLine = None,
       playerSymbol = PLAYER_O, aiSymbol = PLAYER_X\<rparr>])"
  by code_simp

lemma lost_win_missed:
  "fst (snd (makeMove
     \<lparr>board = [PLAYER_X, PLAYER_O, PLAYER_X, EMPTY, EMPTY, PLAYER_X, PLAYER_O, PLAYER_O, EMPTY],
      currentPlayer = PLAYER_X, gameOver = False, winner = None, winningLine = None,
      playerSymbol = PLAYER_O, aiSymbol = PLAYER_X\<rparr> 8)) =
    \<lparr>board = [PLAYER_X, PLAYER_O, PLAYER_X, EMPTY, EMPTY, PLAYER_X, PLAYER_O, PLAYER_O, PLAYER_X],
      currentPlayer = PLAYER_X, gameOver = True, winner = Some (Mark PLAYER_X),
      winningLine = Some (2, 5, 8), playerSymbol = PLAYER_O, aiSymbol = PLAYER_X\<rparr>"
  by code_simp

lemma lost_click:
  "handleCellClick
     \<lparr>board = [PLAYER_X, PLAYER_O, PLAYER_X, EMPTY, PLAYER_X, PLAYER_X, PLAYER_O, PLAYER_O, EMPTY],
      currentPlayer = PLAYER_O, gameOver = False, winner = None, winningLine = None,
      playerSymbol = PLAYER_O, aiSymbol = PLAYER_X\<rparr> 8 =
    \<lparr>board = [PLAYER_X, PLAYER_O, PLAYER_X, EMPTY, PLAYER_X, PLAYER_X, PLAYER_O, PLAYER_O, PLAYER_O],
      currentPlayer = PLAYER_O, gameOver = True, winner = Some (Mark PLAYER_O),
      winningLine = Some (6, 7, 8), playerSymbol = PLAYER_O, aiSymbol = PLAYER_X\<rparr>"
  by code_simp

text \<open>
  C1 fails on the program when the engine holds \<open>X\<close>. Six legal moves from a fresh game,
  in which the human holds \<open>O\<close>, lead to the board \<open>[X, O, X, _, _, X, O, O, _]\<close> with the
  AI to move; \<open>X\<close> at index 8 would win at once. The engine searches for \<open>O\<close>: it scores
  the cells 3, 4 and 8 as -9, 10 and 10, returns 4, and \<open>triggerAIMove\<close> writes \<open>X\<close> there.
  The human's \<open>O\<close> at 8 then completes the row 6-7-8, and the game is over, won by the
  human.
\<close>

theorem engine_loses_won_position:
  "board (run (init ''O'') [0, 1, 2, 6, 5, 7]) =
     [PLAYER_X, PLAYER_O, PLAYER_X, EMPTY, EMPTY, PLAYER_X, PLAYER_O, PLAYER_O, EMPTY] \<and>
   aiSymbol (run (init ''O'') [0, 1, 2, 6, 5, 7]) = PLAYER_X \<and>
   isAITurn (run (init ''O'') [0, 1, 2, 6, 5, 7]) \<and>
   winner (fst (snd (makeMove (run (init ''O'') [0, 1, 2, 6, 5, 7]) 8))) = Some (Mark PLAYER_X) \<and>
   map (cellScore 9 (board (run (init ''O'') [0, 1, 2, 6, 5, 7]))) [3, 4, 8] =
     [Some (Fin (- 9)), Some (Fin 10), Some (Fin 10)] \<and>
   map_option board (triggerAIMove 9 0 ''hard'' (run (init ''O'') [0, 1, 2, 6, 5, 7])) =
     Some [PLAYER_X, PLAYER_O, PLAYER_X, EMPTY, PLAYER_X, PLAYER_X, PLAYER_O, PLAYER_O, EMPTY] \<and>
   map_option (\<lambda>st. (gameOver st, winner st, playerSymbol st))
       (play 9 ''hard'' (run (init ''O'') [0, 1, 2, 6, 5, 7]) [AIMove 0, Click 8]) =
     Some (True, Some (Mark PLAYER_O), PLAYER_O)"
proof -
  let ?b = "[PLAYER_X, PLAYER_O, PLAYER_X, EMPTY, EMPTY, PLAYER_X, PLAYER_O, PLAYER_O, EMPTY]"
  have f: "findBestMove 9 0 [?b] 0 = Some (Some 4, [?b, ?b])"
    using findBestMove_pure [of 0 "[?b]" 9 0] by (simp add: lost_choice)
  show ?thesis
    unfolding lost_start
    by (simp add: isAITurn_def lost_win_missed lost_scores triggerAIMove_def
        getMoveWithDifficultyAndDelay_def f lost_ai_move lost_click Let_def)
qed


end
